theory Spec2Isabelle
  imports Complex_Main "HOL-Library.Option_ord" "HOL-Library.Product_Lexorder" "HOL-Library.Sublist"
begin

section \<open>The property-graph store\<close>

text \<open>
  The analytics of \<^verbatim>\<open>GraphManager.py\<close> are Cypher queries run against a Neo4j store. The
  store is modelled by the nodes and relationships the queries mention: \<^verbatim>\<open>Account\<close> nodes
  (keyed by their unique \<^verbatim>\<open>name\<close>), \<^verbatim>\<open>Post\<close> nodes (keyed by \<^verbatim>\<open>post_id\<close>, carrying
  \<^verbatim>\<open>post_content\<close>), the relationships \<^verbatim>\<open>Follows\<close>, \<^verbatim>\<open>Posts\<close> and \<^verbatim>\<open>Likes\<close> as lists of
  pairs (a list, so that parallel relationships between the same two nodes can be
  expressed), and the two node properties \<^verbatim>\<open>pagerank\<close> and \<^verbatim>\<open>prevPagerank\<close> that the
  ranking protocol writes onto accounts. A property that is absent (Cypher \<^verbatim>\<open>null\<close>) is
  \<open>None\<close>. Floating-point numbers are idealised as rationals.
\<close>

type_synonym name = string
type_synonym post_id = string

record social_graph =
  accounts :: "name list"
  posts :: "(post_id \<times> string) list"
  follows :: "(name \<times> name) list"
  posted :: "(name \<times> post_id) list"
  likes :: "(name \<times> post_id) list"
  pagerank :: "name \<rightharpoonup> rat"
  prevPagerank :: "name \<rightharpoonup> rat"

datatype error =
  StoreUnavailable string | QueryError string | DivisionByZero | ValueError | TypeError

fun str_error :: "error \<Rightarrow> string" where
  "str_error (StoreUnavailable m) = m"
| "str_error (QueryError m) = m"
| "str_error DivisionByZero = ''/ by zero''"
| "str_error ValueError = ''invalid literal''"
| "str_error TypeError = ''argument must be a string''"

datatype level = WARNING | INFO

text \<open>
  The process as the functions see it: the store, the outcomes of the coming round-trips
  (\<open>None\<close>: the store answers; \<open>Some e\<close>: the driver raises \<open>e\<close>; past the end of the list
  every round-trip succeeds), and the log of the module's logger.
\<close>

record world =
  store :: social_graph
  faults :: "error option list"
  log :: "(level \<times> string) list"

subsection \<open>Cypher clauses on row lists\<close>

text \<open>\<^verbatim>\<open>OPTIONAL MATCH\<close>: a row without a match is kept once, with \<^verbatim>\<open>null\<close>.\<close>

definition optional :: "'a list \<Rightarrow> 'a option list" where
  "optional xs = (if xs = [] then [None] else map Some xs)"

text \<open>Aggregating functions skip \<^verbatim>\<open>null\<close>.\<close>

definition non_null :: "'a option list \<Rightarrow> 'a list" where
  "non_null vs = concat (map (\<lambda>v. case v of None \<Rightarrow> [] | Some x \<Rightarrow> [x]) vs)"

text \<open>
  \<^verbatim>\<open>WITH key, aggregate(value)\<close>: one row per distinct grouping key, with the values of the
  rows of that key. No input rows give no groups.
\<close>

definition group_by :: "('k \<times> 'v) list \<Rightarrow> ('k \<times> 'v list) list" where
  "group_by rows =
     map (\<lambda>k. (k, map snd (filter (\<lambda>r. fst r = k) rows))) (remdups (map fst rows))"

text \<open>\<^verbatim>\<open>execute_query\<close>: one round-trip; it raises when the driver does, and then writes nothing.\<close>

definition execute_query ::
  "(social_graph \<Rightarrow> 'r list \<times> social_graph) \<Rightarrow> world \<Rightarrow> (error + 'r list) \<times> world" where
  "execute_query q w =
     (case faults w of
        Some e # fs \<Rightarrow> (Inl e, w\<lparr>faults := fs\<rparr>)
      | None # fs \<Rightarrow> (let (rows, g) = q (store w) in (Inr rows, w\<lparr>store := g, faults := fs\<rparr>))
      | [] \<Rightarrow> (let (rows, g) = q (store w) in (Inr rows, w\<lparr>store := g\<rparr>)))"

section \<open>The custom iterative ranking\<close>

text \<open>
  \<^verbatim>\<open>MATCH (a:Account) SET a.pagerank = 1.0, a.prevPagerank = 0.0
  WITH count(a) AS nodes RETURN nodes\<close>
  An aggregate without a grouping key returns one row, also over no rows.
\<close>

definition init_query :: "social_graph \<Rightarrow> nat list \<times> social_graph" where
  "init_query g =
     ([length (accounts g)],
      g\<lparr>pagerank := (\<lambda>a. if a \<in> set (accounts g) then Some 1 else pagerank g a),
        prevPagerank := (\<lambda>a. if a \<in> set (accounts g) then Some 0 else prevPagerank g a)\<rparr>)"

text \<open>\<^verbatim>\<open>MATCH (a:Account) SET a.prevPagerank = a.pagerank\<close>\<close>

definition update_prev_query :: "social_graph \<Rightarrow> unit list \<times> social_graph" where
  "update_prev_query g =
     ([], g\<lparr>prevPagerank := (\<lambda>a. if a \<in> set (accounts g) then pagerank g a else prevPagerank g a)\<rparr>)"

text \<open>
  The update round, clause by clause:
  \<^verbatim>\<open>
  MATCH (a:Account)
  OPTIONAL MATCH (a)<-[:Follows]-(follower:Account)             -- m1
  WITH a, COLLECT(follower) AS followers, {1 - damping} AS base_score   -- w1
  UNWIND followers AS f                                          -- u
  OPTIONAL MATCH (f)-[:Follows]->(outlinks)                      -- m2
  WITH a, f, base_score, COUNT(outlinks) AS outlinks_count       -- w2
  WITH a, base_score, SUM(CASE WHEN outlinks_count > 0
         THEN f.prevPagerank / outlinks_count ELSE 0 END) AS incoming_score   -- w3
  SET a.pagerank = base_score + {damping} * incoming_score
  \<close>
  \<^verbatim>\<open>COLLECT\<close> drops the \<^verbatim>\<open>null\<close> of an account nobody follows, and \<^verbatim>\<open>UNWIND\<close> of the
  empty list produces no row: the rows of such an account end at \<open>u\<close>, and the final
  \<^verbatim>\<open>SET\<close> runs only for the accounts that are left.
\<close>

definition iteration_query :: "rat \<Rightarrow> social_graph \<Rightarrow> unit list \<times> social_graph" where
  "iteration_query damping g =
     (let base_score = 1 - damping;
          m1 = [(a, follower). a \<leftarrow> accounts g,
                  follower \<leftarrow> optional [f. (f, t) \<leftarrow> follows g, t = a, f \<in> set (accounts g)]];
          w1 = [(a, non_null followers). (a, followers) \<leftarrow> group_by m1];
          u = [(a, f). (a, followers) \<leftarrow> w1, f \<leftarrow> followers];
          m2 = [((a, f), outlinks). (a, f) \<leftarrow> u,
                  outlinks \<leftarrow> optional [t. (s, t) \<leftarrow> follows g, s = f]];
          w2 = [(a, f, length (non_null outlinks)). ((a, f), outlinks) \<leftarrow> group_by m2];
          w3 = [(a, sum_list (non_null contributions)).
                  (a, contributions) \<leftarrow> group_by
                    [(a, if outlinks_count > 0
                         then map_option (\<lambda>p. p / of_nat outlinks_count) (prevPagerank g f)
                         else Some 0).
                     (a, f, outlinks_count) \<leftarrow> w2]]
      in ([], g\<lparr>pagerank :=
                  foldl (\<lambda>m (a, incoming_score). m(a \<mapsto> base_score + damping * incoming_score))
                    (pagerank g) w3\<rparr>))"

text \<open>
  \<^verbatim>\<open>MATCH (a:Account) RETURN a.name AS account, a.pagerank AS pagerank ORDER BY pagerank DESC\<close>
  In descending order \<^verbatim>\<open>null\<close> comes first; rows of equal score keep the order of the match.
\<close>

definition result_query :: "social_graph \<Rightarrow> (name \<times> rat option) list \<times> social_graph" where
  "result_query g =
     (sort_key (\<lambda>(account, pr). map_option uminus pr) [(a, pagerank g a). a \<leftarrow> accounts g], g)"

text \<open>\<^verbatim>\<open>MATCH (a:Account) REMOVE a.pagerank, a.prevPagerank\<close>\<close>

definition cleanup_query :: "social_graph \<Rightarrow> unit list \<times> social_graph" where
  "cleanup_query g =
     ([], g\<lparr>pagerank := (\<lambda>a. if a \<in> set (accounts g) then None else pagerank g a),
            prevPagerank := (\<lambda>a. if a \<in> set (accounts g) then None else prevPagerank g a)\<rparr>)"

text \<open>The \<^verbatim>\<open>for i in range(iterations)\<close> loop: two round-trips per round, an exception ends it.\<close>

fun rounds :: "nat \<Rightarrow> rat \<Rightarrow> world \<Rightarrow> (error + unit) \<times> world" where
  "rounds 0 damping w = (Inr (), w)"
| "rounds (Suc n) damping w =
     (case execute_query update_prev_query w of
        (Inl e, w1) \<Rightarrow> (Inl e, w1)
      | (Inr _, w1) \<Rightarrow>
          (case execute_query (iteration_query damping) w1 of
             (Inl e, w2) \<Rightarrow> (Inl e, w2)
           | (Inr _, w2) \<Rightarrow> rounds n damping w2))"

definition custom_pagerank_implementation ::
  "int \<Rightarrow> rat \<Rightarrow> world \<Rightarrow> (error + (name \<times> rat option) list) \<times> world" where
  "custom_pagerank_implementation iterations damping w =
     (case execute_query init_query w of
        (Inl e, w1) \<Rightarrow> (Inl e, w1)
      | (Inr result, w1) \<Rightarrow>
          (let total_nodes = (case result of [] \<Rightarrow> 0 | nodes # _ \<Rightarrow> nodes) in
           if total_nodes = 0 then (Inr [], w1)
           else
             (case rounds (nat iterations) damping w1 of
                (Inl e, w2) \<Rightarrow> (Inl e, w2)
              | (Inr _, w2) \<Rightarrow>
                  (case execute_query result_query w2 of
                     (Inl e, w3) \<Rightarrow> (Inl e, w3)
                   | (Inr results, w3) \<Rightarrow>
                       (case execute_query cleanup_query w3 of
                          (Inl e, w4) \<Rightarrow> (Inl e, w4)
                        | (Inr _, w4) \<Rightarrow> (Inr results, w4))))))"

text \<open>
  \<^verbatim>\<open>calculate_pagerank\<close>: the GDS query first; \<^verbatim>\<open>except Exception\<close> logs a warning and
  runs the custom implementation. What the GDS library computes is not part of this
  repository: it is the parameter \<open>native\<close>.
\<close>

definition gds_query ::
  "(social_graph \<Rightarrow> (name \<times> rat option) list) \<Rightarrow> social_graph
     \<Rightarrow> (name \<times> rat option) list \<times> social_graph" where
  "gds_query native g = (native g, g)"

definition calculate_pagerank ::
  "(int \<Rightarrow> rat \<Rightarrow> social_graph \<Rightarrow> (name \<times> rat option) list) \<Rightarrow> int \<Rightarrow> rat \<Rightarrow> world
     \<Rightarrow> (error + (name \<times> rat option) list) \<times> world" where
  "calculate_pagerank native iterations damping w =
     (case execute_query (gds_query (native iterations damping)) w of
        (Inr rows, w1) \<Rightarrow> (Inr rows, w1)
      | (Inl e, w1) \<Rightarrow>
          custom_pagerank_implementation iterations damping
            (w1\<lparr>log := log w1 @
               [(WARNING, ''PageRank calculation using GDS library failed: '' @ str_error e),
                (INFO, ''Using custom PageRank implementation'')]\<rparr>))"

text \<open>Every account carries both rank properties.\<close>

definition holds_rank :: "social_graph \<Rightarrow> bool" where
  "holds_rank g = (\<forall>a \<in> set (accounts g). pagerank g a \<noteq> None \<and> prevPagerank g a \<noteq> None)"

section \<open>Similarity and recommendation\<close>

text \<open>
  Both functions run one read query. They are modelled by the value of the query on a
  store that answers; the rows are tuples in the order of the \<^verbatim>\<open>RETURN\<close> clause.
\<close>

text \<open>
  \<^verbatim>\<open>toFloat(x) / y\<close>. The division is given an error result for a zero divisor, so that
  "the query never divides by zero" is a statement about the result.
\<close>

definition to_float_div :: "nat \<Rightarrow> nat \<Rightarrow> error + rat" where
  "to_float_div x y = (if y = 0 then Inl DivisionByZero else Inr (of_nat x / of_nat y))"

fun traverse :: "('a \<Rightarrow> error + 'b) \<Rightarrow> 'a list \<Rightarrow> error + 'b list" where
  "traverse f [] = Inr []"
| "traverse f (x # xs) =
     (case f x of
        Inl e \<Rightarrow> Inl e
      | Inr y \<Rightarrow> (case traverse f xs of Inl e \<Rightarrow> Inl e | Inr ys \<Rightarrow> Inr (y # ys)))"

text \<open>
  The query of \<^verbatim>\<open>find_similar_accounts\<close> up to its \<^verbatim>\<open>WHERE similarity_score > 0\<close>:
  \<^verbatim>\<open>
  MATCH (a:Account {name: $account_name})-[:Follows]->(followed:Account)     -- m1
  WITH a, collect(followed) as user_follows                                  -- w1
  MATCH (other:Account)-[:Follows]->(their_followed:Account)
  WHERE other <> a                                                           -- m2
  WITH other, user_follows, collect(their_followed) as other_follows,
       size(user_follows) as user_follow_count                               -- w2
  WITH other, size([x IN other_follows WHERE x IN user_follows]) as common_follows,
       user_follow_count                                                     -- w3
  WITH other.name AS similar_account, common_follows,
       toFloat(common_follows) / user_follow_count AS similarity_score       -- w4
  WHERE similarity_score > 0
  \<close>
\<close>

definition similar_accounts_rows :: "social_graph \<Rightarrow> name \<Rightarrow> error + (name \<times> nat \<times> rat) list" where
  "similar_accounts_rows g account_name =
     (let m1 = [(a, followed). a \<leftarrow> accounts g, a = account_name,
                  (s, followed) \<leftarrow> follows g, s = a, followed \<in> set (accounts g)];
          w1 = group_by m1;
          m2 = [((other, user_follows), their_followed).
                  (a, user_follows) \<leftarrow> w1, other \<leftarrow> accounts g,
                  (s, their_followed) \<leftarrow> follows g, s = other,
                  their_followed \<in> set (accounts g), other \<noteq> a];
          w2 = [(other, user_follows, other_follows, length user_follows).
                  ((other, user_follows), other_follows) \<leftarrow> group_by m2];
          w3 = [(other, length [x \<leftarrow> other_follows. x \<in> set user_follows], user_follow_count).
                  (other, user_follows, other_follows, user_follow_count) \<leftarrow> w2]
      in case traverse
                (\<lambda>(other, common_follows, user_follow_count).
                   case to_float_div common_follows user_follow_count of
                     Inl e \<Rightarrow> Inl e
                   | Inr similarity_score \<Rightarrow> Inr (other, common_follows, similarity_score))
                w3 of
           Inl e \<Rightarrow> Inl e
         | Inr w4 \<Rightarrow>
             Inr [(similar_account, common_follows, similarity_score).
                    (similar_account, common_follows, similarity_score) \<leftarrow> w4,
                    similarity_score > 0])"

text \<open>
  \<^verbatim>\<open>RETURN similar_account, common_follows, similarity_score
  ORDER BY similarity_score DESC, common_follows DESC LIMIT $limit\<close>
\<close>

definition similarity_order :: "name \<times> nat \<times> rat \<Rightarrow> rat \<times> int" where
  "similarity_order = (\<lambda>(similar_account, common_follows, similarity_score).
     (- similarity_score, - int common_follows))"

definition find_similar_accounts ::
  "social_graph \<Rightarrow> name \<Rightarrow> nat \<Rightarrow> error + (name \<times> nat \<times> rat) list" where
  "find_similar_accounts g account_name limit =
     (case similar_accounts_rows g account_name of
        Inl e \<Rightarrow> Inl e
      | Inr rows \<Rightarrow> Inr (take limit (sort_key similarity_order rows)))"

text \<open>
  The query of \<^verbatim>\<open>recommend_posts\<close> up to its \<^verbatim>\<open>RETURN\<close>:
  \<^verbatim>\<open>
  MATCH (a:Account {name: $account_name})-[:Follows]->(followed:Account)-[:Likes]->(p:Post)
  WHERE NOT (a)-[:Likes]->(p)                                                -- m1
  WITH p, count(DISTINCT followed) AS followed_likes                         -- w1
  OPTIONAL MATCH (a:Account {name: $account_name})-[:Follows]->(poster:Account)
                 -[:Posts]->(p2:Post)
  WHERE p = p2                                                               -- m2
  WITH p, followed_likes, count(p2) > 0 AS from_followed                     -- w2
  WITH p, followed_likes, from_followed,
       CASE WHEN from_followed THEN 1.5 ELSE 1 END * followed_likes
         AS recommendation_score                                             -- w3
  RETURN p.post_id AS post_id, p.post_content AS content, recommendation_score
  \<close>
\<close>

definition recommend_posts_rows :: "social_graph \<Rightarrow> name \<Rightarrow> (post_id \<times> string option \<times> rat) list" where
  "recommend_posts_rows g account_name =
     (let m1 = [(p, followed). a \<leftarrow> accounts g, a = account_name,
                  (s, followed) \<leftarrow> follows g, s = a, followed \<in> set (accounts g),
                  (l, p) \<leftarrow> likes g, l = followed, p \<in> set (map fst (posts g)),
                  (a, p) \<notin> set (likes g)];
          w1 = [(p, length (remdups followed)). (p, followed) \<leftarrow> group_by m1];
          m2 = [((p, followed_likes), p2). (p, followed_likes) \<leftarrow> w1,
                  p2 \<leftarrow> optional
                    [p2. a \<leftarrow> accounts g, a = account_name,
                       (s, poster) \<leftarrow> follows g, s = a, poster \<in> set (accounts g),
                       (u, p2) \<leftarrow> posted g, u = poster, p2 \<in> set (map fst (posts g)),
                       p = p2]];
          w2 = [(p, followed_likes, length (non_null p2s) > 0).
                  ((p, followed_likes), p2s) \<leftarrow> group_by m2];
          w3 = [(p, followed_likes, from_followed,
                   (if from_followed then 3 / 2 else 1) * of_nat followed_likes).
                  (p, followed_likes, from_followed) \<leftarrow> w2]
      in [(p, map_of (posts g) p, recommendation_score).
            (p, followed_likes, from_followed, recommendation_score) \<leftarrow> w3])"

text \<open>\<^verbatim>\<open>ORDER BY recommendation_score DESC LIMIT $limit\<close>\<close>

definition recommend_posts ::
  "social_graph \<Rightarrow> name \<Rightarrow> nat \<Rightarrow> (post_id \<times> string option \<times> rat) list" where
  "recommend_posts g account_name limit =
     take limit
       (sort_key (\<lambda>(post_id, content, recommendation_score). - recommendation_score)
          (recommend_posts_rows g account_name))"

text \<open>
  The sets the specification speaks of: the accounts that an account follows, and the
  followed accounts that like a post.
\<close>

definition followed_by :: "social_graph \<Rightarrow> name \<Rightarrow> name set" where
  "followed_by g a =
     {b. a \<in> set (accounts g) \<and> b \<in> set (accounts g) \<and> (a, b) \<in> set (follows g)}"

definition followed_likers :: "social_graph \<Rightarrow> name \<Rightarrow> post_id \<Rightarrow> name set" where
  "followed_likers g a p = {f. f \<in> followed_by g a \<and> (f, p) \<in> set (likes g)}"

text \<open>The list behind \<open>followed_by\<close>, and the count the query calls \<^verbatim>\<open>common_follows\<close>.\<close>

definition follow_list :: "social_graph \<Rightarrow> name \<Rightarrow> name list" where
  "follow_list g x = [t. (s, t) \<leftarrow> follows g, s = x, t \<in> set (accounts g)]"

definition common_list :: "social_graph \<Rightarrow> name \<Rightarrow> name \<Rightarrow> nat" where
  "common_list g n other = length [x \<leftarrow> follow_list g other. x \<in> set (follow_list g n)]"

text \<open>A small store for concrete runs.\<close>

definition sample_graph :: social_graph where
  "sample_graph =
     \<lparr>accounts = [''A'', ''B'', ''C'', ''X'', ''Y''],
      posts = [(''p1'', ''hello''), (''p2'', ''world''), (''p3'', ''again'')],
      follows = [(''A'', ''X''), (''A'', ''Y''), (''B'', ''X''), (''C'', ''X''), (''C'', ''Y''), (''X'', ''A'')],
      posted = [(''X'', ''p1''), (''B'', ''p2''), (''A'', ''p3'')],
      likes = [(''X'', ''p1''), (''Y'', ''p1''), (''X'', ''p2''), (''X'', ''p3''), (''A'', ''p3'')],
      pagerank = Map.empty, prevPagerank = Map.empty\<rparr>"

section \<open>The profile parser\<close>

text \<open>
  \<^verbatim>\<open>parse_profile_metrics\<close> of \<^verbatim>\<open>NL_Query_Processor.py\<close> scans the report with Python regular
  expressions. Text is a list of 8-bit characters, read as the code points below 256.
  The expressions are values of a datatype that has the constructs the eleven patterns
  use: repetition is applied to single-character atoms only.
\<close>

datatype item = Ch char | Range char char | ClassDigit

datatype atom = Lit char | Dot | Digit | Word | Space | In "item list" | NotIn "item list"

datatype regex =
    Eps
  | One atom
  | Star atom
  | Plus atom
  | PlusLazy atom
  | Seq regex regex
  | Alt regex regex
  | Group nat regex
  | Ahead regex
  | EndStr

record flags =
  ignorecase :: bool
  dotall :: bool

definition no_flags :: flags where
  "no_flags = \<lparr>ignorecase = False, dotall = False\<rparr>"

definition DOTALL :: flags where
  "DOTALL = \<lparr>ignorecase = False, dotall = True\<rparr>"

definition IGNORECASE :: flags where
  "IGNORECASE = \<lparr>ignorecase = True, dotall = False\<rparr>"

definition is_digit :: "char \<Rightarrow> bool" where
  "is_digit c = (48 \<le> (of_char c :: nat) \<and> (of_char c :: nat) \<le> 57)"

text \<open>\<^verbatim>\<open>\w\<close> and \<^verbatim>\<open>\s\<close> of a \<^verbatim>\<open>str\<close> pattern, on the code points below 256.\<close>

definition is_word :: "char \<Rightarrow> bool" where
  "is_word c = (let n = (of_char c :: nat) in
     (48 \<le> n \<and> n \<le> 57) \<or> (65 \<le> n \<and> n \<le> 90) \<or> n = 95 \<or> (97 \<le> n \<and> n \<le> 122)
     \<or> n \<in> {170, 178, 179, 181, 185, 186, 188, 189, 190}
     \<or> (192 \<le> n \<and> n \<le> 214) \<or> (216 \<le> n \<and> n \<le> 246) \<or> 248 \<le> n)"

definition is_space :: "char \<Rightarrow> bool" where
  "is_space c = (let n = (of_char c :: nat) in
     (9 \<le> n \<and> n \<le> 13) \<or> (28 \<le> n \<and> n \<le> 32) \<or> n = 133 \<or> n = 160)"

text \<open>
  Case folding for \<^verbatim>\<open>re.IGNORECASE\<close>. Every letter that the ignore-case patterns name is
  an ASCII letter, and below 256 only the ASCII letter of the other case folds to it.
\<close>

definition lower :: "char \<Rightarrow> char" where
  "lower c = (if 65 \<le> (of_char c :: nat) \<and> (of_char c :: nat) \<le> 90
              then char_of ((of_char c :: nat) + 32) else c)"

definition upper :: "char \<Rightarrow> char" where
  "upper c = (if 97 \<le> (of_char c :: nat) \<and> (of_char c :: nat) \<le> 122
              then char_of ((of_char c :: nat) - 32) else c)"

fun in_item :: "item \<Rightarrow> char \<Rightarrow> bool" where
  "in_item (Ch p) c = (c = p)"
| "in_item (Range lo hi) c = ((of_char lo :: nat) \<le> of_char c \<and> (of_char c :: nat) \<le> of_char hi)"
| "in_item ClassDigit c = is_digit c"

fun atom_ok :: "flags \<Rightarrow> atom \<Rightarrow> char \<Rightarrow> bool" where
  "atom_ok fl (Lit p) c = (if ignorecase fl then lower c = lower p else c = p)"
| "atom_ok fl Dot c = (dotall fl \<or> c \<noteq> CHR 0x0A)"
| "atom_ok fl Digit c = is_digit c"
| "atom_ok fl Word c = is_word c"
| "atom_ok fl Space c = is_space c"
| "atom_ok fl (In items) c =
     list_ex (\<lambda>i. in_item i c \<or> (ignorecase fl \<and> (in_item i (lower c) \<or> in_item i (upper c)))) items"
| "atom_ok fl (NotIn items) c =
     (\<not> list_ex (\<lambda>i. in_item i c \<or> (ignorecase fl \<and> (in_item i (lower c) \<or> in_item i (upper c)))) items)"

text \<open>
  \<open>spans p s\<close>: what is left of \<open>s\<close> after 0, 1, 2, ... leading characters that satisfy
  \<open>p\<close>. A greedy repetition tries them from the last, a lazy one from the first.
\<close>

fun spans :: "(char \<Rightarrow> bool) \<Rightarrow> string \<Rightarrow> string list" where
  "spans p [] = [[]]"
| "spans p (c # cs) = (c # cs) # (if p c then spans p cs else [])"

text \<open>
  The backtracking matcher: all ways to match \<open>r\<close> at the start of \<open>s\<close>, as the groups
  captured and the text left, in the order in which Python's engine tries them. The
  first one is the match Python reports.
\<close>

fun rmatch :: "flags \<Rightarrow> regex \<Rightarrow> string \<Rightarrow> (nat \<rightharpoonup> string) \<Rightarrow> ((nat \<rightharpoonup> string) \<times> string) list" where
  "rmatch fl Eps s g = [(g, s)]"
| "rmatch fl (One a) s g = (case s of [] \<Rightarrow> [] | c # cs \<Rightarrow> if atom_ok fl a c then [(g, cs)] else [])"
| "rmatch fl (Star a) s g = map (Pair g) (rev (spans (atom_ok fl a) s))"
| "rmatch fl (Plus a) s g = map (Pair g) (rev (tl (spans (atom_ok fl a) s)))"
| "rmatch fl (PlusLazy a) s g = map (Pair g) (tl (spans (atom_ok fl a) s))"
| "rmatch fl (Seq r1 r2) s g = concat (map (\<lambda>(g1, s1). rmatch fl r2 s1 g1) (rmatch fl r1 s g))"
| "rmatch fl (Alt r1 r2) s g = rmatch fl r1 s g @ rmatch fl r2 s g"
| "rmatch fl (Group n r) s g =
     map (\<lambda>(g1, s1). (g1(n \<mapsto> take (length s - length s1) s), s1)) (rmatch fl r s g)"
| "rmatch fl (Ahead r) s g = (if rmatch fl r s g = [] then [] else [(g, s)])"
| "rmatch fl EndStr s g = (if s = [] \<or> s = [CHR 0x0A] then [(g, s)] else [])"

text \<open>
  \<^verbatim>\<open>re.search\<close>: the first match at the leftmost position that has one; the result is the
  groups, the text matched and the text after the match.
\<close>

fun search :: "flags \<Rightarrow> regex \<Rightarrow> string \<Rightarrow> ((nat \<rightharpoonup> string) \<times> string \<times> string) option" where
  "search fl r s =
     (case rmatch fl r s Map.empty of
        (g, rest) # _ \<Rightarrow> Some (g, take (length s - length rest) s, rest)
      | [] \<Rightarrow> (case s of [] \<Rightarrow> None | _ # cs \<Rightarrow> search fl r cs))"

text \<open>
  \<^verbatim>\<open>re.findall\<close> for a pattern with one group: the group of each match, the scan going on
  where the last match ended (one character further after an empty match). The two
  length tests make the recursion visibly terminating; they always hold
  (\<open>findall_unguarded\<close> below).
\<close>

function findall :: "flags \<Rightarrow> regex \<Rightarrow> string \<Rightarrow> string list" where
  "findall fl r s =
     (case search fl r s of
        None \<Rightarrow> []
      | Some (g, matched, rest) \<Rightarrow>
          (case g 1 of None \<Rightarrow> [] | Some x \<Rightarrow> x) #
          (if matched = []
           then (case rest of
                   [] \<Rightarrow> []
                 | _ # cs \<Rightarrow> if length cs < length s then findall fl r cs else [])
           else if length rest < length s then findall fl r rest else []))"
  by pat_completeness auto
termination
  by (relation "measure (\<lambda>(fl, r, s). length s)") auto

declare search.simps [simp del]

declare findall.simps [simp del]

text \<open>Building patterns: a literal string, and a sequence.\<close>

definition str :: "string \<Rightarrow> regex" where
  "str s = foldr (\<lambda>c r. Seq (One (Lit c)) r) s Eps"

definition seqs :: "regex list \<Rightarrow> regex" where
  "seqs rs = foldr Seq rs Eps"

text \<open>
  \<^verbatim>\<open>int(m.group(n))\<close> and \<^verbatim>\<open>float(m.group(n))\<close>. A group that took no part in the match is
  \<^verbatim>\<open>None\<close>, on which both raise \<^verbatim>\<open>TypeError\<close>. \<open>py_int\<close> reads a non-empty string of
  digits and \<open>py_float\<close> a string \<^verbatim>\<open>digits.digits\<close> (the forms the patterns capture); on
  other text the model raises \<^verbatim>\<open>ValueError\<close>. CPython's \<^verbatim>\<open>int\<close> also raises \<^verbatim>\<open>ValueError\<close>
  on a string of more than \<^verbatim>\<open>sys.int_info.default_max_str_digits\<close> = 4300 digits (the
  default of \<^verbatim>\<open>sys.set_int_max_str_digits\<close>, in every release since 3.11 and in the
  security releases of 3.7 to 3.10); \<^verbatim>\<open>float\<close> has no such limit.
\<close>

definition max_str_digits :: nat where
  "max_str_digits = 4300"

definition digit_value :: "char \<Rightarrow> nat" where
  "digit_value c = (of_char c :: nat) - 48"

definition decimal :: "string \<Rightarrow> nat" where
  "decimal ds = foldl (\<lambda>n c. 10 * n + digit_value c) 0 ds"

definition py_int :: "string option \<Rightarrow> error + int" where
  "py_int v =
     (case v of
        None \<Rightarrow> Inl TypeError
      | Some ds \<Rightarrow>
          if ds \<noteq> [] \<and> list_all is_digit ds \<and> length ds \<le> max_str_digits
          then Inr (int (decimal ds)) else Inl ValueError)"

definition py_float :: "string option \<Rightarrow> error + rat" where
  "py_float v =
     (case v of
        None \<Rightarrow> Inl TypeError
      | Some t \<Rightarrow>
          (let ip = takeWhile is_digit t; r = dropWhile is_digit t in
           case r of
             [] \<Rightarrow> Inl ValueError
           | d # fp \<Rightarrow>
               if d = CHR ''.'' \<and> ip \<noteq> [] \<and> fp \<noteq> [] \<and> list_all is_digit fp
               then Inr (of_nat (decimal ip) + of_nat (decimal fp) / 10 ^ length fp)
               else Inl ValueError))"

text \<open>A string use of a group; a missing group is treated as an error here too.\<close>

definition py_group :: "string option \<Rightarrow> error + string" where
  "py_group v = (case v of None \<Rightarrow> Inl TypeError | Some t \<Rightarrow> Inr t)"

text \<open>
  For the proofs: the group numbers of a pattern; \<open>consumes fl r P\<close>, every match of \<open>r\<close>
  takes a text that satisfies \<open>P\<close> off the front; \<open>sets fl r n P\<close>, every match of \<open>r\<close>
  leaves in group \<open>n\<close> a piece of the scanned text that satisfies \<open>P\<close>.
\<close>

fun groups_of :: "regex \<Rightarrow> nat set" where
  "groups_of (Seq r1 r2) = groups_of r1 \<union> groups_of r2"
| "groups_of (Alt r1 r2) = groups_of r1 \<union> groups_of r2"
| "groups_of (Group n r) = insert n (groups_of r)"
| "groups_of (Ahead r) = groups_of r"
| "groups_of r = {}"

definition consumes :: "flags \<Rightarrow> regex \<Rightarrow> (string \<Rightarrow> bool) \<Rightarrow> bool" where
  "consumes fl r P =
     (\<forall>s g g' s'. (g', s') \<in> set (rmatch fl r s g) \<longrightarrow> (\<exists>t. s = t @ s' \<and> P t))"

definition sets :: "flags \<Rightarrow> regex \<Rightarrow> nat \<Rightarrow> (string \<Rightarrow> bool) \<Rightarrow> bool" where
  "sets fl r n P =
     (\<forall>s g g' s'. (g', s') \<in> set (rmatch fl r s g) \<longrightarrow>
        (\<exists>t. g' n = Some t \<and> P t \<and> sublist t s))"

text \<open>A text without a run of more than \<open>max_str_digits\<close> digits.\<close>

definition short_digit_runs :: "string \<Rightarrow> bool" where
  "short_digit_runs s = (\<forall>t. sublist t s \<and> list_all is_digit t \<longrightarrow> length t \<le> max_str_digits)"

text \<open>What the number groups hold: a non-empty digit string, and \<^verbatim>\<open>digits.digits\<close>.\<close>

definition digits :: "string \<Rightarrow> bool" where
  "digits t = (t \<noteq> [] \<and> list_all is_digit t)"

definition decimal_point :: "string \<Rightarrow> bool" where
  "decimal_point t = (\<exists>t1 t2. t = t1 @ ''.'' @ t2 \<and> digits t1 \<and> digits t2)"

subsection \<open>The eleven patterns\<close>

text \<open>\<^verbatim>\<open>r"Cypher version:.+, planner: \w+, runtime: \w+\. (\d+) total db hits in (\d+\.\d+) ms\."\<close>\<close>

definition time_re :: regex where
  "time_re = seqs [str ''Cypher version:'', Plus Dot, str '', planner: '', Plus Word,
     str '', runtime: '', Plus Word, str ''. '', Group 1 (Plus Digit),
     str '' total db hits in '', Group 2 (seqs [Plus Digit, str ''.'', Plus Digit]), str '' ms.'']"

text \<open>\<^verbatim>\<open>r"planning: (\d+\.\d+) ms"\<close>\<close>

definition planning_re :: regex where
  "planning_re = seqs [str ''planning: '', Group 1 (seqs [Plus Digit, str ''.'', Plus Digit]), str '' ms'']"

text \<open>\<^verbatim>\<open>r"memory\s*\[\s*([\d\.]+\s*[KMG]B)\s*\]"\<close>\<close>

definition memory_re :: regex where
  "memory_re = seqs [str ''memory'', Star Space, str ''['', Star Space,
     Group 1 (seqs [Plus (In [ClassDigit, Ch CHR ''.'']), Star Space,
                    One (In [Ch CHR ''K'', Ch CHR ''M'', Ch CHR ''G'']), str ''B'']),
     Star Space, str '']'']"

text \<open>\<^verbatim>\<open>r"\+\-*([^+]+?)(?=\+|$)"\<close>\<close>

definition block_re :: regex where
  "block_re = seqs [str ''+'', Star (Lit CHR ''-''), Group 1 (PlusLazy (NotIn [Ch CHR ''+''])),
     Ahead (Alt (str ''+'') EndStr)]"

text \<open>\<^verbatim>\<open>r"([A-Za-z]+)"\<close>\<close>

definition name_re :: regex where
  "name_re = Group 1 (Plus (In [Range CHR ''A'' CHR ''Z'', Range CHR ''a'' CHR ''z'']))"

text \<open>\<^verbatim>\<open>r"db hits\s*\[\s*(\d+)\s*\]"\<close>\<close>

definition db_hits_re :: regex where
  "db_hits_re = seqs [str ''db hits'', Star Space, str ''['', Star Space, Group 1 (Plus Digit),
     Star Space, str '']'']"

text \<open>\<^verbatim>\<open>r"rows\s*\[\s*(\d+)\s*\]"\<close>\<close>

definition rows_re :: regex where
  "rows_re = seqs [str ''rows'', Star Space, str ''['', Star Space, Group 1 (Plus Digit),
     Star Space, str '']'']"

text \<open>\<^verbatim>\<open>r"elapsed\s*\[\s*(\d+)\s*ms\s*\]"\<close>\<close>

definition elapsed_re :: regex where
  "elapsed_re = seqs [str ''elapsed'', Star Space, str ''['', Star Space, Group 1 (Plus Digit),
     Star Space, str ''ms'', Star Space, str '']'']"

text \<open>\<^verbatim>\<open>r"(Index|NodeIndexSeek).+\((.+?)\)"\<close>\<close>

definition index_re :: regex where
  "index_re = seqs [Group 1 (Alt (str ''Index'') (str ''NodeIndexSeek'')), Plus Dot, str ''('',
     Group 2 (PlusLazy Dot), str '')'']"

text \<open>\<^verbatim>\<open>r"cache hits: (\d+)"\<close> and \<^verbatim>\<open>r"cache misses: (\d+)"\<close>\<close>

definition cache_hits_re :: regex where
  "cache_hits_re = seqs [str ''cache hits: '', Group 1 (Plus Digit)]"

definition cache_misses_re :: regex where
  "cache_misses_re = seqs [str ''cache misses: '', Group 1 (Plus Digit)]"

subsection \<open>\<^verbatim>\<open>parse_profile_metrics\<close>\<close>

record operator_stats =
  name :: string
  op_db_hits :: int
  op_rows :: int
  elapsed_ms :: int

record metrics =
  db_hits :: int
  rows :: int
  elapsed_time_ms :: int
  memory_usage :: string
  operators :: "operator_stats list"
  total_db_hits :: int
  query_time_ms :: rat
  planning_time_ms :: rat
  indexes_used :: "string list"
  cache_hits :: int
  cache_misses :: int

definition initial_metrics :: metrics where
  "initial_metrics =
     \<lparr>db_hits = 0, rows = 0, elapsed_time_ms = 0, memory_usage = '''', operators = [],
      total_db_hits = 0, query_time_ms = 0, planning_time_ms = 0, indexes_used = [],
      cache_hits = 0, cache_misses = 0\<rparr>"

text \<open>
  \<open>on_match\<close>: \<^verbatim>\<open>m = re.search(...); if m: ...\<close>. The bodies are built from
  \<open>int_step n\<close> (\<^verbatim>\<open>x = int(m.group(n))\<close>, then an update with \<open>x\<close>), \<open>float_step n\<close> and
  \<open>str_step n\<close> (\<^verbatim>\<open>m.group(n)\<close> used as a string).
\<close>

definition on_match ::
  "flags \<Rightarrow> regex \<Rightarrow> string \<Rightarrow> ((nat \<rightharpoonup> string) \<Rightarrow> 'a \<Rightarrow> error + 'a) \<Rightarrow> 'a \<Rightarrow> error + 'a" where
  "on_match fl r text body st =
     (case search fl r text of None \<Rightarrow> Inr st | Some (g, _, _) \<Rightarrow> body g st)"

definition int_step :: "nat \<Rightarrow> (int \<Rightarrow> 'a \<Rightarrow> 'a) \<Rightarrow> (nat \<rightharpoonup> string) \<Rightarrow> 'a \<Rightarrow> error + 'a" where
  "int_step n upd g st = (case py_int (g n) of Inl e \<Rightarrow> Inl e | Inr x \<Rightarrow> Inr (upd x st))"

definition float_step :: "nat \<Rightarrow> (rat \<Rightarrow> 'a \<Rightarrow> 'a) \<Rightarrow> (nat \<rightharpoonup> string) \<Rightarrow> 'a \<Rightarrow> error + 'a" where
  "float_step n upd g st = (case py_float (g n) of Inl e \<Rightarrow> Inl e | Inr x \<Rightarrow> Inr (upd x st))"

definition str_step :: "nat \<Rightarrow> (string \<Rightarrow> 'a \<Rightarrow> 'a) \<Rightarrow> (nat \<rightharpoonup> string) \<Rightarrow> 'a \<Rightarrow> error + 'a" where
  "str_step n upd g st = (case py_group (g n) of Inl e \<Rightarrow> Inl e | Inr x \<Rightarrow> Inr (upd x st))"

definition and_then :: "error + 'a \<Rightarrow> ('a \<Rightarrow> error + 'b) \<Rightarrow> error + 'b" where
  "and_then x f = (case x of Inl e \<Rightarrow> Inl e | Inr v \<Rightarrow> f v)"

text \<open>
  The body of \<^verbatim>\<open>for block in operator_blocks\<close>: the state is the metrics and the
  operator being built (name, db hits, rows, elapsed), appended to \<^verbatim>\<open>operators\<close> at the
  end of the body. The five updates, in the order of the source:
\<close>

definition set_name :: "string \<Rightarrow> metrics \<times> operator_stats \<Rightarrow> metrics \<times> operator_stats" where
  "set_name x = (\<lambda>(m, opr). (m, opr\<lparr>name := x\<rparr>))"

definition add_db_hits :: "int \<Rightarrow> metrics \<times> operator_stats \<Rightarrow> metrics \<times> operator_stats" where
  "add_db_hits x = (\<lambda>(m, opr). (m\<lparr>db_hits := db_hits m + x\<rparr>, opr\<lparr>op_db_hits := x\<rparr>))"

definition set_rows :: "int \<Rightarrow> metrics \<times> operator_stats \<Rightarrow> metrics \<times> operator_stats" where
  "set_rows x = (\<lambda>(m, opr). (m\<lparr>rows := x\<rparr>, opr\<lparr>op_rows := x\<rparr>))"

definition max_elapsed :: "int \<Rightarrow> metrics \<times> operator_stats \<Rightarrow> metrics \<times> operator_stats" where
  "max_elapsed x =
     (\<lambda>(m, opr). (m\<lparr>elapsed_time_ms := max (elapsed_time_ms m) x\<rparr>, opr\<lparr>elapsed_ms := x\<rparr>))"

definition add_index :: "string \<Rightarrow> metrics \<times> operator_stats \<Rightarrow> metrics \<times> operator_stats" where
  "add_index x =
     (\<lambda>(m, opr). (if x \<notin> set (indexes_used m)
                   then m\<lparr>indexes_used := indexes_used m @ [x]\<rparr> else m, opr))"

definition new_operator :: operator_stats where
  "new_operator = \<lparr>name = [], op_db_hits = 0, op_rows = 0, elapsed_ms = 0\<rparr>"

definition parse_block ::
  "string \<Rightarrow> metrics \<times> operator_stats list \<Rightarrow> error + metrics \<times> operator_stats list" where
  "parse_block block = (\<lambda>(m, ops).
     and_then (on_match no_flags name_re block (str_step 1 set_name) (m, new_operator))
    (\<lambda>st. and_then (on_match IGNORECASE db_hits_re block (int_step 1 add_db_hits) st)
    (\<lambda>st. and_then (on_match IGNORECASE rows_re block (int_step 1 set_rows) st)
    (\<lambda>st. and_then (on_match IGNORECASE elapsed_re block (int_step 1 max_elapsed) st)
    (\<lambda>st. and_then (on_match IGNORECASE index_re block (str_step 2 add_index) st)
    (\<lambda>st. Inr (fst st, ops @ [snd st])))))))"

fun parse_blocks ::
  "string list \<Rightarrow> metrics \<times> operator_stats list \<Rightarrow> error + metrics \<times> operator_stats list" where
  "parse_blocks [] st = Inr st"
| "parse_blocks (block # blocks) st = and_then (parse_block block st) (parse_blocks blocks)"

definition parse_profile_metrics :: "string \<Rightarrow> error + metrics" where
  "parse_profile_metrics profile_string =
     and_then (on_match DOTALL time_re profile_string
                 (\<lambda>g m. and_then (int_step 1 (\<lambda>x m. m\<lparr>total_db_hits := x\<rparr>) g m)
                           (float_step 2 (\<lambda>y m. m\<lparr>query_time_ms := y\<rparr>) g))
                 initial_metrics)
    (\<lambda>m. and_then (on_match no_flags planning_re profile_string
                 (float_step 1 (\<lambda>y m. m\<lparr>planning_time_ms := y\<rparr>)) m)
    (\<lambda>m. and_then (on_match IGNORECASE memory_re profile_string
                 (str_step 1 (\<lambda>x m. m\<lparr>memory_usage := x\<rparr>)) m)
    (\<lambda>m. and_then (parse_blocks (findall DOTALL block_re profile_string) (m, []))
    (\<lambda>st. and_then (Inr ((fst st)\<lparr>operators := snd st\<rparr>))
    (\<lambda>m. and_then (on_match IGNORECASE cache_hits_re profile_string
                 (int_step 1 (\<lambda>x m. m\<lparr>cache_hits := x\<rparr>)) m)
    (\<lambda>m. on_match IGNORECASE cache_misses_re profile_string
                 (int_step 1 (\<lambda>x m. m\<lparr>cache_misses := x\<rparr>)) m))))))"

text \<open>The example report of the specification (section 6), four lines.\<close>

definition example_report :: string where
  "example_report =
     ''Summary: 842 total data-access operations in 3.210 ms. planning: 0.450 ms. memory [1.2 MB]''
     @ [CHR 0x0A] @
     ''+-Operator1 (db hits[210], rows[50], elapsed[1 ms], index[account_name_unique])''
     @ [CHR 0x0A] @
     ''+-Operator2 (db hits[632], rows[50], elapsed[2 ms])''
     @ [CHR 0x0A] @
     ''cache hits: 5 cache misses: 1''"

section \<open>Properties of the ranking\<close>

lemma execute_cleanup:
  "execute_query cleanup_query w = (Inr r, w') \<Longrightarrow>
     \<forall>a \<in> set (accounts (store w')). pagerank (store w') a = None \<and> prevPagerank (store w') a = None"
  by (auto simp: execute_query_def cleanup_query_def split: list.splits option.splits)

lemma execute_init_accounts:
  "execute_query init_query w = (Inr r, w') \<Longrightarrow> r = [length (accounts (store w'))]"
  by (auto simp: execute_query_def init_query_def split: list.splits option.splits)

text \<open>
  C1. One account, no \<^verbatim>\<open>Follows\<close> relationship, one iteration, damping 0.85, a store that
  answers every round-trip: the claim expects the score \<open>1 - 0.85 = 0.15\<close>; the update
  round writes nothing for an account without followers, and the account is returned
  with its initial score 1.
\<close>

theorem custom_pagerank_lone_account:
  "fst (custom_pagerank_implementation 1 (17 / 20)
     \<lparr>store = \<lparr>accounts = [''A''], posts = [], follows = [], posted = [], likes = [],
                pagerank = Map.empty, prevPagerank = Map.empty\<rparr>,
      faults = [], log = []\<rparr>)
   = Inr [(''A'', Some 1)]"
  by code_simp

text \<open>
  C2. Accounts A, B, C with B following A, C following A and C following B, one
  iteration, damping 0.85: A and B get 1.425 and 0.575 as the claim says; C, which nobody
  follows, keeps its initial score 1 instead of 0.15, and the descending order is A, C, B.
\<close>

theorem custom_pagerank_three_accounts:
  "fst (custom_pagerank_implementation 1 (17 / 20)
     \<lparr>store = \<lparr>accounts = [''A'', ''B'', ''C''], posts = [],
                follows = [(''B'', ''A''), (''C'', ''A''), (''C'', ''B'')],
                posted = [], likes = [],
                pagerank = Map.empty, prevPagerank = Map.empty\<rparr>,
      faults = [], log = []\<rparr>)
   = Inr [(''A'', Some (57 / 40)), (''C'', Some 1), (''B'', Some (23 / 40))]"
  by code_simp

text \<open>
  C4, as stated, fails: when the store answers the initialisation and the driver raises
  in the first update round, the exception leaves the function before the cleanup query,
  and the account keeps both rank properties.
\<close>

theorem custom_pagerank_error_leaves_rank_state:
  "fst (custom_pagerank_implementation 1 (17 / 20)
     \<lparr>store = \<lparr>accounts = [''A''], posts = [], follows = [], posted = [], likes = [],
                pagerank = Map.empty, prevPagerank = Map.empty\<rparr>,
      faults = [None, Some (StoreUnavailable ''connection lost'')], log = []\<rparr>)
   = Inl (StoreUnavailable ''connection lost'')
   \<and> pagerank (store (snd (custom_pagerank_implementation 1 (17 / 20)
     \<lparr>store = \<lparr>accounts = [''A''], posts = [], follows = [], posted = [], likes = [],
                pagerank = Map.empty, prevPagerank = Map.empty\<rparr>,
      faults = [None, Some (StoreUnavailable ''connection lost'')], log = []\<rparr>))) ''A'' = Some 1
   \<and> prevPagerank (store (snd (custom_pagerank_implementation 1 (17 / 20)
     \<lparr>store = \<lparr>accounts = [''A''], posts = [], follows = [], posted = [], likes = [],
                pagerank = Map.empty, prevPagerank = Map.empty\<rparr>,
      faults = [None, Some (StoreUnavailable ''connection lost'')], log = []\<rparr>))) ''A'' = Some 0"
  by code_simp

lemma custom_pagerank_returns_clean:
  "custom_pagerank_implementation iterations damping w = (Inr result, w') \<Longrightarrow>
     \<forall>a \<in> set (accounts (store w')). pagerank (store w') a = None \<and> prevPagerank (store w') a = None"
  unfolding custom_pagerank_implementation_def
  apply (simp split: prod.splits sum.splits if_splits add: Let_def)
  apply (auto dest!: execute_init_accounts execute_cleanup)
  done

lemma execute_ok:
  "faults w = None # fs \<Longrightarrow>
     execute_query q w = (Inr (fst (q (store w))), w\<lparr>store := snd (q (store w)), faults := fs\<rparr>)"
  by (simp add: execute_query_def split: prod.splits)

lemma execute_fail:
  "faults w = Some e # fs \<Longrightarrow> execute_query q w = (Inl e, w\<lparr>faults := fs\<rparr>)"
  by (simp add: execute_query_def)

lemma foldl_upd_not_None:
  "m a \<noteq> None \<Longrightarrow> foldl (\<lambda>m (b, x). m(b \<mapsto> f x)) m xs a \<noteq> None"
  by (induction xs arbitrary: m) (auto simp: case_prod_beta)

lemma iteration_query_shape:
  "\<exists>P. iteration_query damping g = ([], g\<lparr>pagerank := P\<rparr>) \<and> (\<forall>a. pagerank g a \<noteq> None \<longrightarrow> P a \<noteq> None)"
  unfolding iteration_query_def Let_def
  by (intro exI conjI allI impI, rule refl, rule foldl_upd_not_None)

lemma iteration_query_holds:
  "holds_rank g \<Longrightarrow> holds_rank (snd (iteration_query damping g))
     \<and> accounts (snd (iteration_query damping g)) = accounts g"
  using iteration_query_shape [of damping g] by (auto simp: holds_rank_def)

lemma update_prev_query_holds:
  "holds_rank g \<Longrightarrow> holds_rank (snd (update_prev_query g))
     \<and> accounts (snd (update_prev_query g)) = accounts g"
  by (auto simp: holds_rank_def update_prev_query_def)

lemma init_query_holds:
  "holds_rank (snd (init_query g)) \<and> accounts (snd (init_query g)) = accounts g
     \<and> fst (init_query g) = [length (accounts g)]"
  by (auto simp: holds_rank_def init_query_def)

lemma rounds_faults:
  assumes "faults w = replicate k None @ Some e # fs" and "holds_rank (store w)"
  shows "\<exists>w'. holds_rank (store w') \<and> accounts (store w') = accounts (store w)
           \<and> (if k < 2 * n
               then rounds n damping w = (Inl e, w') \<and> faults w' = fs
               else rounds n damping w = (Inr (), w')
                    \<and> faults w' = replicate (k - 2 * n) None @ Some e # fs)"
  using assms
proof (induction n arbitrary: w k)
  case 0
  then show ?case by simp
next
  case (Suc n)
  show ?case
  proof (cases k)
    case 0
    with Suc.prems show ?thesis
      by (simp add: execute_fail)
  next
    case k1: (Suc k')
    let ?w1 = "w\<lparr>store := snd (update_prev_query (store w)), faults := replicate k' None @ Some e # fs\<rparr>"
    from Suc.prems k1 have e1: "execute_query update_prev_query w = (Inr (fst (update_prev_query (store w))), ?w1)"
      by (simp add: execute_ok)
    have h1: "holds_rank (store ?w1)" "accounts (store ?w1) = accounts (store w)"
      using update_prev_query_holds [OF Suc.prems(2)] by simp_all
    show ?thesis
    proof (cases k')
      case 0
      with e1 h1 k1 show ?thesis
        by (simp add: execute_fail)
    next
      case k2: (Suc k'')
      let ?w2 = "?w1\<lparr>store := snd (iteration_query damping (store ?w1)),
                     faults := replicate k'' None @ Some e # fs\<rparr>"
      from k2 have e2: "execute_query (iteration_query damping) ?w1
          = (Inr (fst (iteration_query damping (store ?w1))), ?w2)"
        by (simp add: execute_ok)
      have h2: "holds_rank (store ?w2)" "accounts (store ?w2) = accounts (store w)"
        using iteration_query_holds [OF h1(1), of damping] h1(2) by simp_all
      have f2: "faults ?w2 = replicate k'' None @ Some e # fs"
        by simp
      from Suc.IH [OF f2 h2(1)] obtain w' where
        "holds_rank (store w')" "accounts (store w') = accounts (store ?w2)"
        "if k'' < 2 * n
               then rounds n damping ?w2 = (Inl e, w') \<and> faults w' = fs
               else rounds n damping ?w2 = (Inr (), w')
                    \<and> faults w' = replicate (k'' - 2 * n) None @ Some e # fs"
        by blast
      with e1 e2 h2(2) k1 k2 show ?thesis
        by (auto simp del: rounds.simps simp add: rounds.simps(2) [of n damping w] split: if_splits)
    qed
  qed
qed


lemma custom_pagerank_raises:
  assumes f: "faults w = replicate k None @ Some e # fs"
    and k: "k < (if accounts (store w) = [] then 1 else 2 * nat iterations + 3)"
  shows "fst (custom_pagerank_implementation iterations damping w) = Inl e
       \<and> accounts (store (snd (custom_pagerank_implementation iterations damping w))) = accounts (store w)
       \<and> (k = 0 \<longrightarrow> store (snd (custom_pagerank_implementation iterations damping w)) = store w)
       \<and> (0 < k \<longrightarrow> holds_rank (store (snd (custom_pagerank_implementation iterations damping w))))"
proof (cases k)
  case 0
  with f show ?thesis
    by (simp add: custom_pagerank_implementation_def execute_fail)
next
  case k1: (Suc k')
  with k have ne: "accounts (store w) \<noteq> []" and k': "k' < 2 * nat iterations + 2"
    by (auto split: if_splits)
  let ?w1 = "w\<lparr>store := snd (init_query (store w)), faults := replicate k' None @ Some e # fs\<rparr>"
  from f k1 have e1: "execute_query init_query w = (Inr [length (accounts (store w))], ?w1)"
    by (simp add: execute_ok init_query_holds)
  have h1: "holds_rank (store ?w1)" "accounts (store ?w1) = accounts (store w)"
    using init_query_holds [of "store w"] by simp_all
  have f1: "faults ?w1 = replicate k' None @ Some e # fs"
    by simp
  from rounds_faults [OF f1 h1(1), of "nat iterations" damping] obtain w2 where
    h2: "holds_rank (store w2)" "accounts (store w2) = accounts (store ?w1)"
    and r: "if k' < 2 * nat iterations
               then rounds (nat iterations) damping ?w1 = (Inl e, w2) \<and> faults w2 = fs
               else rounds (nat iterations) damping ?w1 = (Inr (), w2)
                    \<and> faults w2 = replicate (k' - 2 * nat iterations) None @ Some e # fs"
    by blast
  show ?thesis
  proof (cases "k' < 2 * nat iterations")
    case True
    with r e1 ne h1 h2 k1 show ?thesis
      by (simp add: custom_pagerank_implementation_def)
  next
    case False
    with r have r2: "rounds (nat iterations) damping ?w1 = (Inr (), w2)"
      and f2: "faults w2 = replicate (k' - 2 * nat iterations) None @ Some e # fs"
      by simp_all
    show ?thesis
    proof (cases "k' - 2 * nat iterations")
      case 0
      with f2 have "execute_query result_query w2 = (Inl e, w2\<lparr>faults := fs\<rparr>)"
        by (simp add: execute_fail)
      with r2 e1 ne h1 h2 k1 show ?thesis
        by (simp add: custom_pagerank_implementation_def)
    next
      case (Suc j)
      with False k' have j: "j = 0" by simp
      let ?w3 = "w2\<lparr>store := snd (result_query (store w2)), faults := Some e # fs\<rparr>"
      from f2 Suc j have e3: "execute_query result_query w2 = (Inr (fst (result_query (store w2))), ?w3)"
        by (simp add: execute_ok)
      have s3: "store ?w3 = store w2"
        by (simp add: result_query_def)
      have e4: "execute_query cleanup_query ?w3 = (Inl e, ?w3\<lparr>faults := fs\<rparr>)"
        by (simp add: execute_fail)
      from r2 e1 e3 e4 ne h1 h2 k1 s3 show ?thesis
        by (simp add: custom_pagerank_implementation_def)
    qed
  qed
qed


text \<open>
  C4, amended. (1) Whenever the custom iterative ranking returns (no round-trip raised),
  no account retains \<^verbatim>\<open>pagerank\<close> or \<^verbatim>\<open>prevPagerank\<close>. (2) Whenever a round-trip of the call
  raises (the first \<open>k\<close> round-trips are answered, the next one raises \<open>e\<close>, and the call
  makes more than \<open>k\<close> round-trips: one on a store without accounts, otherwise
  \<open>2 * iterations + 3\<close>), the call raises \<open>e\<close> and the rank state is not removed: if the
  initialisation itself raised, the store is as it was; otherwise there are accounts and
  every account retains both properties.
\<close>

theorem custom_pagerank_cleanup_only_on_return:
  "(custom_pagerank_implementation iterations damping w = (Inr result, w') \<longrightarrow>
      (\<forall>a \<in> set (accounts (store w')).
         pagerank (store w') a = None \<and> prevPagerank (store w') a = None))
   \<and> (faults w = replicate k None @ Some e # fs
        \<and> k < (if accounts (store w) = [] then 1 else 2 * nat iterations + 3) \<longrightarrow>
      fst (custom_pagerank_implementation iterations damping w) = Inl e
      \<and> (k = 0 \<longrightarrow> store (snd (custom_pagerank_implementation iterations damping w)) = store w)
      \<and> (0 < k \<longrightarrow>
           accounts (store (snd (custom_pagerank_implementation iterations damping w))) \<noteq> []
           \<and> (\<forall>a \<in> set (accounts (store (snd (custom_pagerank_implementation iterations damping w)))).
                pagerank (store (snd (custom_pagerank_implementation iterations damping w))) a \<noteq> None
                \<and> prevPagerank (store (snd (custom_pagerank_implementation iterations damping w))) a \<noteq> None)))"
proof (intro conjI impI)
  assume "custom_pagerank_implementation iterations damping w = (Inr result, w')"
  then show "\<forall>a \<in> set (accounts (store w')).
         pagerank (store w') a = None \<and> prevPagerank (store w') a = None"
    by (rule custom_pagerank_returns_clean)
next
  assume a: "faults w = replicate k None @ Some e # fs
        \<and> k < (if accounts (store w) = [] then 1 else 2 * nat iterations + 3)"
  then have f: "faults w = replicate k None @ Some e # fs"
    and k: "k < (if accounts (store w) = [] then 1 else 2 * nat iterations + 3)"
    by simp_all
  note r = custom_pagerank_raises [OF f k, of damping]
  from r show "fst (custom_pagerank_implementation iterations damping w) = Inl e"
    by simp
  {
    assume "k = 0"
    with r show "store (snd (custom_pagerank_implementation iterations damping w)) = store w"
      by simp
  }
  {
    assume p: "0 < k"
    with k have "accounts (store w) \<noteq> []"
      by (auto split: if_splits)
    with r show "accounts (store (snd (custom_pagerank_implementation iterations damping w))) \<noteq> []"
      by simp
    from r p show "\<forall>a \<in> set (accounts (store (snd (custom_pagerank_implementation iterations damping w)))).
                pagerank (store (snd (custom_pagerank_implementation iterations damping w))) a \<noteq> None
                \<and> prevPagerank (store (snd (custom_pagerank_implementation iterations damping w))) a \<noteq> None"
      by (simp add: holds_rank_def)
  }
qed

theorem custom_pagerank_cleanup_only_on_return_witness:
  "fst (custom_pagerank_implementation 2 (17 / 20)
     \<lparr>store = \<lparr>accounts = [''A'', ''B''], posts = [], follows = [(''B'', ''A'')],
                posted = [], likes = [], pagerank = Map.empty, prevPagerank = Map.empty\<rparr>,
      faults = [], log = []\<rparr>) = Inr [(''A'', Some 1), (''B'', Some 1)]
   \<and> pagerank (store (snd (custom_pagerank_implementation 2 (17 / 20)
     \<lparr>store = \<lparr>accounts = [''A'', ''B''], posts = [], follows = [(''B'', ''A'')],
                posted = [], likes = [], pagerank = Map.empty, prevPagerank = Map.empty\<rparr>,
      faults = [], log = []\<rparr>))) ''A'' = None
   \<and> prevPagerank (store (snd (custom_pagerank_implementation 2 (17 / 20)
     \<lparr>store = \<lparr>accounts = [''A'', ''B''], posts = [], follows = [(''B'', ''A'')],
                posted = [], likes = [], pagerank = Map.empty, prevPagerank = Map.empty\<rparr>,
      faults = [], log = []\<rparr>))) ''A'' = None
   \<and> pagerank (store (snd (custom_pagerank_implementation 2 (17 / 20)
     \<lparr>store = \<lparr>accounts = [''A'', ''B''], posts = [], follows = [(''B'', ''A'')],
                posted = [], likes = [], pagerank = Map.empty, prevPagerank = Map.empty\<rparr>,
      faults = [], log = []\<rparr>))) ''B'' = None
   \<and> prevPagerank (store (snd (custom_pagerank_implementation 2 (17 / 20)
     \<lparr>store = \<lparr>accounts = [''A'', ''B''], posts = [], follows = [(''B'', ''A'')],
                posted = [], likes = [], pagerank = Map.empty, prevPagerank = Map.empty\<rparr>,
      faults = [], log = []\<rparr>))) ''B'' = None
   \<and> faults \<lparr>store = \<lparr>accounts = [''A'', ''B''], posts = [], follows = [(''B'', ''A'')],
                  posted = [], likes = [], pagerank = Map.empty, prevPagerank = Map.empty\<rparr>,
        faults = [None, None, None, Some (QueryError ''timeout'')], log = []\<rparr>
       = replicate 3 None @ Some (QueryError ''timeout'') # []
   \<and> (3 :: nat) < 2 * nat 2 + 3
   \<and> fst (custom_pagerank_implementation 2 (17 / 20)
     \<lparr>store = \<lparr>accounts = [''A'', ''B''], posts = [], follows = [(''B'', ''A'')],
                posted = [], likes = [], pagerank = Map.empty, prevPagerank = Map.empty\<rparr>,
      faults = [None, None, None, Some (QueryError ''timeout'')], log = []\<rparr>) = Inl (QueryError ''timeout'')
   \<and> pagerank (store (snd (custom_pagerank_implementation 2 (17 / 20)
     \<lparr>store = \<lparr>accounts = [''A'', ''B''], posts = [], follows = [(''B'', ''A'')],
                posted = [], likes = [], pagerank = Map.empty, prevPagerank = Map.empty\<rparr>,
      faults = [None, None, None, Some (QueryError ''timeout'')], log = []\<rparr>))) ''A'' \<noteq> None
   \<and> prevPagerank (store (snd (custom_pagerank_implementation 2 (17 / 20)
     \<lparr>store = \<lparr>accounts = [''A'', ''B''], posts = [], follows = [(''B'', ''A'')],
                posted = [], likes = [], pagerank = Map.empty, prevPagerank = Map.empty\<rparr>,
      faults = [None, None, None, Some (QueryError ''timeout'')], log = []\<rparr>))) ''A'' \<noteq> None
   \<and> pagerank (store (snd (custom_pagerank_implementation 2 (17 / 20)
     \<lparr>store = \<lparr>accounts = [''A'', ''B''], posts = [], follows = [(''B'', ''A'')],
                posted = [], likes = [], pagerank = Map.empty, prevPagerank = Map.empty\<rparr>,
      faults = [None, None, None, Some (QueryError ''timeout'')], log = []\<rparr>))) ''B'' \<noteq> None
   \<and> prevPagerank (store (snd (custom_pagerank_implementation 2 (17 / 20)
     \<lparr>store = \<lparr>accounts = [''A'', ''B''], posts = [], follows = [(''B'', ''A'')],
                posted = [], likes = [], pagerank = Map.empty, prevPagerank = Map.empty\<rparr>,
      faults = [None, None, None, Some (QueryError ''timeout'')], log = []\<rparr>))) ''B'' \<noteq> None"
proof -
  let ?w = "\<lparr>store = \<lparr>accounts = [''A'', ''B''], posts = [], follows = [(''B'', ''A'')],
                posted = [], likes = [], pagerank = Map.empty, prevPagerank = Map.empty\<rparr>,
      faults = [], log = []\<rparr>"
  let ?r = "custom_pagerank_implementation 2 (17 / 20) ?w"
  let ?wf = "\<lparr>store = \<lparr>accounts = [''A'', ''B''], posts = [], follows = [(''B'', ''A'')],
                posted = [], likes = [], pagerank = Map.empty, prevPagerank = Map.empty\<rparr>,
      faults = [None, None, None, Some (QueryError ''timeout'')], log = []\<rparr>"
  let ?rf = "custom_pagerank_implementation 2 (17 / 20) ?wf"
  have h: "fst ?r = Inr [(''A'', Some 1), (''B'', Some 1)]"
    by code_simp
  then have "?r = (Inr [(''A'', Some 1), (''B'', Some 1)], snd ?r)"
    by (metis prod.collapse)
  with custom_pagerank_cleanup_only_on_return
    [of 2 "17 / 20" ?w "[(''A'', Some 1), (''B'', Some 1)]" "snd ?r"]
  have c: "\<forall>a \<in> set (accounts (store (snd ?r))).
             pagerank (store (snd ?r)) a = None \<and> prevPagerank (store (snd ?r)) a = None"
    by blast
  have ac: "accounts (store (snd ?r)) = [''A'', ''B'']"
    by code_simp
  have f: "faults ?wf = replicate 3 None @ Some (QueryError ''timeout'') # []"
    by (simp add: numeral_3_eq_3)
  have k: "(3 :: nat) < (if accounts (store ?wf) = [] then 1 else 2 * nat 2 + 3)"
    by simp
  from custom_pagerank_cleanup_only_on_return
    [of 2 "17 / 20" ?wf _ _ 3 "QueryError ''timeout''" "[]"] f k
  have e: "fst ?rf = Inl (QueryError ''timeout'')"
    and d: "\<forall>a \<in> set (accounts (store (snd ?rf))).
             pagerank (store (snd ?rf)) a \<noteq> None \<and> prevPagerank (store (snd ?rf)) a \<noteq> None"
    by simp_all
  have af: "accounts (store (snd ?rf)) = [''A'', ''B'']"
    by code_simp
  from c ac d af h e f show ?thesis
    by simp
qed

text \<open>
  C5. When the GDS query raises \<open>e\<close>, \<^verbatim>\<open>calculate_pagerank\<close> is the custom iterative
  protocol run after a warning (and an info line) has been logged: its result, error or
  rows, is the custom protocol's own, and \<open>e\<close> reaches the caller only inside the log.
\<close>

theorem calculate_pagerank_fallback:
  "faults w = Some e # fs \<Longrightarrow>
     calculate_pagerank native iterations damping w =
       custom_pagerank_implementation iterations damping
         (w\<lparr>faults := fs,
            log := log w @
              [(WARNING, ''PageRank calculation using GDS library failed: '' @ str_error e),
               (INFO, ''Using custom PageRank implementation'')]\<rparr>)"
  by (simp add: calculate_pagerank_def execute_query_def)

theorem calculate_pagerank_fallback_witness:
  "faults \<lparr>store = \<lparr>accounts = [''A''], posts = [], follows = [], posted = [], likes = [],
                    pagerank = Map.empty, prevPagerank = Map.empty\<rparr>,
          faults = [Some (QueryError ''no procedure gds.graph.project'')], log = []\<rparr>
     = Some (QueryError ''no procedure gds.graph.project'') # []
   \<and> calculate_pagerank (\<lambda>i d g. []) 1 (17 / 20)
        \<lparr>store = \<lparr>accounts = [''A''], posts = [], follows = [], posted = [], likes = [],
                    pagerank = Map.empty, prevPagerank = Map.empty\<rparr>,
          faults = [Some (QueryError ''no procedure gds.graph.project'')], log = []\<rparr>
     = custom_pagerank_implementation 1 (17 / 20)
        \<lparr>store = \<lparr>accounts = [''A''], posts = [], follows = [], posted = [], likes = [],
                    pagerank = Map.empty, prevPagerank = Map.empty\<rparr>,
          faults = [],
          log = [(WARNING, ''PageRank calculation using GDS library failed: no procedure gds.graph.project''),
                 (INFO, ''Using custom PageRank implementation'')]\<rparr>"
  using calculate_pagerank_fallback [of
      "\<lparr>store = \<lparr>accounts = [''A''], posts = [], follows = [], posted = [], likes = [],
                    pagerank = Map.empty, prevPagerank = Map.empty\<rparr>,
          faults = [Some (QueryError ''no procedure gds.graph.project'')], log = []\<rparr>"
      "QueryError ''no procedure gds.graph.project''" "[]" "\<lambda>i d g. []" 1 "17 / 20"]
  by simp

section \<open>Properties of similarity and recommendation\<close>

lemma group_by_Nil: "group_by [] = []"
  by (simp add: group_by_def)

lemma traverse_Inr:
  "(\<And>x. x \<in> set xs \<Longrightarrow> f x = Inr (h x)) \<Longrightarrow> traverse f xs = Inr (map h xs)"
  by (induction xs) auto

lemma concat_map_if_eq:
  "distinct xs \<Longrightarrow> concat (map (\<lambda>x. if x = a then f x else []) xs) = (if a \<in> set xs then f a else [])"
  by (induction xs) auto

lemma edges_from:
  "concat (map (\<lambda>(s, t). if s = x then if t \<in> A then [h t] else [] else []) es)
     = map (\<lambda>e. h (snd e)) (filter (\<lambda>e. fst e = x \<and> snd e \<in> A) es)"
  by (induction es) auto

lemma edges_from_if:
  "concat (map (\<lambda>(s, t). if s = x then if t \<in> A then if P then [h t] else [] else [] else []) es)
     = map h (if P then map snd (filter (\<lambda>e. fst e = x \<and> snd e \<in> A) es) else [])"
  by (induction es) auto

lemma set_follow_list:
  "x \<in> set (accounts g) \<Longrightarrow> set (follow_list g x) = followed_by g x"
  by (auto simp: follow_list_def followed_by_def case_prod_beta)

lemma follow_list_filter:
  "follow_list g x = map snd (filter (\<lambda>e. fst e = x \<and> snd e \<in> set (accounts g)) (follows g))"
  by (simp add: follow_list_def edges_from)

lemma distinct_follow_list:
  "distinct (follows g) \<Longrightarrow> distinct (follow_list g x)"
  unfolding follow_list_filter
  by (rule distinct_map [THEN iffD2]) (auto simp: inj_on_def prod_eq_iff)

lemma m1_set:
  "set [(a, followed). a \<leftarrow> accounts g, a = n, (s, followed) \<leftarrow> follows g, s = a, followed \<in> set (accounts g)]
     = Pair n ` followed_by g n"
  by (force simp: followed_by_def case_prod_beta)

lemma m1_eq:
  "distinct (accounts g) \<Longrightarrow> n \<in> set (accounts g) \<Longrightarrow>
   [(a, followed). a \<leftarrow> accounts g, a = n, (s, followed) \<leftarrow> follows g, s = a, followed \<in> set (accounts g)]
    = map (Pair n) (follow_list g n)"
  by (simp add: concat_map_if_eq edges_from follow_list_filter)

lemma remdups_const: "remdups (map (\<lambda>_. k) vs) = (if vs = [] then [] else [k])"
  by (induction vs) (auto simp: image_constant_conv)

lemma group_by_const_key: "group_by (map (Pair k) vs) = (if vs = [] then [] else [(k, vs)])"
  by (simp add: group_by_def o_def remdups_const)

lemma group_by_append:
  "fst ` set xs \<inter> fst ` set ys = {} \<Longrightarrow> group_by (xs @ ys) = group_by xs @ group_by ys"
proof -
  assume d: "fst ` set xs \<inter> fst ` set ys = {}"
  have 1: "remdups (map fst xs @ map fst ys) = remdups (map fst xs) @ remdups (map fst ys)"
    using d by (induction xs) auto
  have 2: "k \<in> fst ` set xs \<Longrightarrow> filter (\<lambda>r. fst r = k) ys = []" for k
    using d by (auto simp: filter_empty_conv)
  have 3: "k \<in> fst ` set ys \<Longrightarrow> filter (\<lambda>r. fst r = k) xs = []" for k
    using d by (auto simp: filter_empty_conv)
  show ?thesis
    unfolding group_by_def by (simp add: 1 2 3)
qed

lemma group_by_keyed:
  "distinct ks \<Longrightarrow> inj_on key (set ks) \<Longrightarrow>
   group_by (concat (map (\<lambda>k. map (Pair (key k)) (vs k)) ks))
     = map (\<lambda>k. (key k, vs k)) (filter (\<lambda>k. vs k \<noteq> []) ks)"
proof (induction ks)
  case Nil
  then show ?case by (simp add: group_by_Nil)
next
  case (Cons k ks)
  have "fst ` set (map (Pair (key k)) (vs k)) \<inter> fst ` set (concat (map (\<lambda>k. map (Pair (key k)) (vs k)) ks)) = {}"
    using Cons.prems by (auto simp: inj_on_def)
  then have "group_by (concat (map (\<lambda>k. map (Pair (key k)) (vs k)) (k # ks)))
      = group_by (map (Pair (key k)) (vs k)) @ group_by (concat (map (\<lambda>k. map (Pair (key k)) (vs k)) ks))"
    by (simp add: group_by_append)
  also have "\<dots> = map (\<lambda>k. (key k, vs k)) (filter (\<lambda>k. vs k \<noteq> []) (k # ks))"
    using Cons by (simp add: group_by_const_key)
  finally show ?case .
qed

lemma similar_accounts_rows_eq:
  assumes d: "distinct (accounts g)" and n: "n \<in> set (accounts g)" and f: "follow_list g n \<noteq> []"
  shows "similar_accounts_rows g n =
    Inr (map (\<lambda>other. (other, common_list g n other,
                of_nat (common_list g n other) / of_nat (length (follow_list g n))))
          (filter (\<lambda>other. other \<noteq> n \<and> 0 < common_list g n other) (accounts g)))"
proof -
  define uf where "uf = follow_list g n"
  define vs where "vs = (\<lambda>other. if other \<noteq> n then follow_list g other else [])"
  have w1: "group_by [(a, followed). a \<leftarrow> accounts g, a = n, (s, followed) \<leftarrow> follows g, s = a, followed \<in> set (accounts g)] = [(n, uf)]"
    using f by (simp only: m1_eq [OF d n] group_by_const_key uf_def if_False)
  have m2: "[((other, user_follows), their_followed).
                  (a, user_follows) \<leftarrow> [(n, uf)], other \<leftarrow> accounts g,
                  (s, their_followed) \<leftarrow> follows g, s = other,
                  their_followed \<in> set (accounts g), other \<noteq> a]
     = concat (map (\<lambda>other. map (Pair (other, uf)) (vs other)) (accounts g))"
    unfolding vs_def follow_list_filter by (simp add: edges_from_if)
  have g2: "group_by (concat (map (\<lambda>other. map (Pair (other, uf)) (vs other)) (accounts g)))
     = map (\<lambda>other. ((other, uf), vs other)) (filter (\<lambda>other. vs other \<noteq> []) (accounts g))"
    by (rule group_by_keyed [OF d]) (simp add: inj_on_def)
  have uf0: "length uf \<noteq> 0" using f by (simp add: uf_def)
  have tr: "traverse
                (\<lambda>(other, common_follows, user_follow_count).
                   case to_float_div common_follows user_follow_count of
                     Inl e \<Rightarrow> Inl e
                   | Inr similarity_score \<Rightarrow> Inr (other, common_follows, similarity_score))
                (map (\<lambda>other. (other, length [x \<leftarrow> vs other. x \<in> set uf], length uf)) xs)
      = Inr (map (\<lambda>other. (other, length [x \<leftarrow> vs other. x \<in> set uf], of_nat (length [x \<leftarrow> vs other. x \<in> set uf]) / of_nat (length uf))) xs)" for xs
    using uf0 by (induction xs) (auto simp: to_float_div_def)
  have c: "other \<noteq> n \<Longrightarrow> length [x \<leftarrow> vs other. x \<in> set uf] = common_list g n other" for other
    by (simp add: vs_def common_list_def uf_def)
  have flt: "filter (\<lambda>other. 0 < length [x \<leftarrow> vs other. x \<in> set uf]) (filter (\<lambda>other. vs other \<noteq> []) (accounts g))
     = filter (\<lambda>other. other \<noteq> n \<and> 0 < common_list g n other) (accounts g)"
    unfolding filter_filter
    by (rule filter_cong) (auto simp: vs_def common_list_def uf_def)
  have w3: "map (\<lambda>(other, user_follows, other_follows, user_follow_count).
                     (other, length (filter (\<lambda>x. x \<in> set user_follows) other_follows), user_follow_count))
              (map (\<lambda>((other, user_follows), other_follows).
                       (other, user_follows, other_follows, length user_follows))
                (map (\<lambda>other. ((other, uf), vs other)) xs))
     = map (\<lambda>other. (other, length [x \<leftarrow> vs other. x \<in> set uf], length uf)) xs" for xs
    by simp
  have pos: "concat (map (\<lambda>(similar_account, common_follows, similarity_score).
                         if 0 < similarity_score
                         then [(similar_account, common_follows, similarity_score)] else [])
        (map (\<lambda>other. (other, length [x \<leftarrow> vs other. x \<in> set uf],
                 (of_nat (length [x \<leftarrow> vs other. x \<in> set uf]) / of_nat (length uf) :: rat))) xs))
     = map (\<lambda>other. (other, length [x \<leftarrow> vs other. x \<in> set uf],
                 of_nat (length [x \<leftarrow> vs other. x \<in> set uf]) / of_nat (length uf)))
         (filter (\<lambda>other. 0 < length [x \<leftarrow> vs other. x \<in> set uf]) xs)" for xs
    using uf0 by (induction xs) (auto simp: zero_less_divide_iff)
  have fin: "map (\<lambda>other. (other, length [x \<leftarrow> vs other. x \<in> set uf],
                 of_nat (length [x \<leftarrow> vs other. x \<in> set uf]) / of_nat (length uf)))
         (filter (\<lambda>other. other \<noteq> n \<and> 0 < common_list g n other) (accounts g))
      = map (\<lambda>other. (other, common_list g n other,
                of_nat (common_list g n other) / of_nat (length (follow_list g n))))
          (filter (\<lambda>other. other \<noteq> n \<and> 0 < common_list g n other) (accounts g))"
    by (rule map_cong) (auto simp: c [unfolded uf_def] uf_def)
  show ?thesis
    unfolding similar_accounts_rows_def Let_def w1 m2 g2 w3 tr
    apply (simp only: sum.case pos flt fin)
    done
qed


lemma similar_accounts_rows_nobody:
  "followed_by g n = {} \<Longrightarrow> similar_accounts_rows g n = Inr []"
proof -
  assume "followed_by g n = {}"
  then have "set [(a, followed). a \<leftarrow> accounts g, a = n, (s, followed) \<leftarrow> follows g, s = a, followed \<in> set (accounts g)] = {}"
    by (simp only: m1_set image_empty)
  then have m1: "[(a, followed). a \<leftarrow> accounts g, a = n, (s, followed) \<leftarrow> follows g, s = a, followed \<in> set (accounts g)] = []"
    by (simp only: set_empty)
  show ?thesis
    unfolding similar_accounts_rows_def Let_def m1
    by (simp add: group_by_Nil)
qed

text \<open>
  C7. An account that follows nobody (also one that does not exist): the first
  \<^verbatim>\<open>MATCH\<close> has no row, no later clause is evaluated on any row, and the result is the
  empty sequence; no division takes place, so none is by zero.
\<close>

theorem find_similar_accounts_follows_nobody:
  "followed_by g account_name = {} \<Longrightarrow> find_similar_accounts g account_name limit = Inr []"
  by (simp add: find_similar_accounts_def similar_accounts_rows_nobody)

lemma common_list_card:
  assumes "distinct (follows g)" "n \<in> set (accounts g)" "other \<in> set (accounts g)"
  shows "common_list g n other = card (followed_by g n \<inter> followed_by g other)"
proof -
  have "common_list g n other = card ({x. x \<in> set (follow_list g n)} \<inter> set (follow_list g other))"
    unfolding common_list_def
    by (rule distinct_length_filter) (rule distinct_follow_list [OF assms(1)])
  then show ?thesis
    using assms by (simp add: set_follow_list)
qed

lemma length_follow_list:
  "distinct (follows g) \<Longrightarrow> n \<in> set (accounts g) \<Longrightarrow> length (follow_list g n) = card (followed_by g n)"
  using distinct_card [OF distinct_follow_list, of g n] by (simp add: set_follow_list)

lemma similar_accounts_rows_card:
  assumes d: "distinct (accounts g)" and e: "distinct (follows g)" and f: "followed_by g n \<noteq> {}"
  shows "similar_accounts_rows g n =
    Inr (map (\<lambda>other. (other, card (followed_by g n \<inter> followed_by g other),
                of_nat (card (followed_by g n \<inter> followed_by g other)) / of_nat (card (followed_by g n))))
          (filter (\<lambda>other. other \<noteq> n \<and> 0 < card (followed_by g n \<inter> followed_by g other)) (accounts g)))"
proof -
  from f have n: "n \<in> set (accounts g)"
    by (auto simp: followed_by_def)
  with f have "follow_list g n \<noteq> []"
    using set_follow_list [OF n] by auto
  from similar_accounts_rows_eq [OF d n this]
  have "similar_accounts_rows g n =
    Inr (map (\<lambda>other. (other, common_list g n other,
                of_nat (common_list g n other) / of_nat (length (follow_list g n))))
          (filter (\<lambda>other. other \<noteq> n \<and> 0 < common_list g n other) (accounts g)))" .
  also have "filter (\<lambda>other. other \<noteq> n \<and> 0 < common_list g n other) (accounts g)
     = filter (\<lambda>other. other \<noteq> n \<and> 0 < card (followed_by g n \<inter> followed_by g other)) (accounts g)"
    by (rule filter_cong) (simp_all add: common_list_card [OF e n])
  also have "map (\<lambda>other. (other, common_list g n other,
                of_nat (common_list g n other) / of_nat (length (follow_list g n))))
          (filter (\<lambda>other. other \<noteq> n \<and> 0 < card (followed_by g n \<inter> followed_by g other)) (accounts g))
     = map (\<lambda>other. (other, card (followed_by g n \<inter> followed_by g other),
                of_nat (card (followed_by g n \<inter> followed_by g other)) / of_nat (card (followed_by g n))))
          (filter (\<lambda>other. other \<noteq> n \<and> 0 < card (followed_by g n \<inter> followed_by g other)) (accounts g))"
    by (rule map_cong) (simp_all add: common_list_card [OF e n] length_follow_list [OF e n])
  finally show ?thesis .
qed

lemma finite_followed_by: "finite (followed_by g n)"
  by (rule finite_subset [of _ "set (accounts g)"]) (auto simp: followed_by_def)

text \<open>
  C10. With unique account names and at most one \<^verbatim>\<open>Follows\<close> relationship per ordered
  pair, every returned row has \<open>1 \<le> common_follows \<le> |F|\<close> and
  \<open>0 < similarity_score \<le> 1\<close>.
\<close>

theorem find_similar_accounts_bounds:
  assumes "distinct (accounts g)" and "distinct (follows g)"
    and "find_similar_accounts g account_name limit = Inr result"
    and "(similar_account, common_follows, similarity_score) \<in> set result"
  shows "1 \<le> common_follows \<and> common_follows \<le> card (followed_by g account_name)
       \<and> 0 < similarity_score \<and> similarity_score \<le> 1"
proof (cases "followed_by g account_name = {}")
  case True
  with assms(3,4) show ?thesis
    by (auto simp: find_similar_accounts_def similar_accounts_rows_nobody)
next
  case False
  let ?F = "followed_by g account_name"
  from assms(3) have "set result \<subseteq>
     set (map (\<lambda>other. (other, card (?F \<inter> followed_by g other),
                (of_nat (card (?F \<inter> followed_by g other)) / of_nat (card ?F) :: rat)))
          (filter (\<lambda>other. other \<noteq> account_name \<and> 0 < card (?F \<inter> followed_by g other)) (accounts g)))"
    unfolding find_similar_accounts_def similar_accounts_rows_card [OF assms(1,2) False]
    using set_take_subset by fastforce
  with assms(4) obtain other where
    c: "common_follows = card (?F \<inter> followed_by g other)" and
    s: "similarity_score = of_nat common_follows / of_nat (card ?F)" and
    p: "0 < common_follows"
    by auto
  have le: "common_follows \<le> card ?F"
    unfolding c by (rule card_mono [OF finite_followed_by]) simp
  with p have "0 < card ?F" by simp
  with p le show ?thesis
    by (simp add: s)
qed


lemma group_by_mem:
  "(k, vs) \<in> set (group_by xs) \<longleftrightarrow>
     k \<in> fst ` set xs \<and> vs = map snd (filter (\<lambda>r. fst r = k) xs)"
  by (auto simp: group_by_def)

lemma set_optional: "set (optional xs) = (if xs = [] then {None} else Some ` set xs)"
  by (simp add: optional_def)

lemma non_null_empty: "non_null vs = [] \<longleftrightarrow> (\<forall>v \<in> set vs. v = None)"
  by (induction vs) (auto simp: non_null_def split: option.splits)

lemma liked_by_followed_set:
  "set [(p, followed). a \<leftarrow> accounts g, a = n,
          (s, followed) \<leftarrow> follows g, s = a, followed \<in> set (accounts g),
          (l, p) \<leftarrow> likes g, l = followed, p \<in> set (map fst (posts g)),
          (a, p) \<notin> set (likes g)]
   = {(p, f). f \<in> followed_by g n \<and> (f, p) \<in> set (likes g) \<and> p \<in> fst ` set (posts g)
        \<and> (n, p) \<notin> set (likes g)}"
  by (force simp: followed_by_def case_prod_beta)

lemma posted_by_followed_set:
  "set [p2. a \<leftarrow> accounts g, a = n,
          (s, poster) \<leftarrow> follows g, s = a, poster \<in> set (accounts g),
          (u, p2) \<leftarrow> posted g, u = poster, p2 \<in> set (map fst (posts g)), p = p2]
   = {p2. p2 = p \<and> p \<in> fst ` set (posts g) \<and> (\<exists>poster \<in> followed_by g n. (poster, p) \<in> set (posted g))}"
  by (force simp: followed_by_def case_prod_beta)


lemma recommend_posts_rows_mem:
  assumes r: "(p, content, score) \<in> set (recommend_posts_rows g n)"
  shows "(\<exists>f \<in> followed_by g n. (f, p) \<in> set (likes g)) \<and> (n, p) \<notin> set (likes g)
       \<and> score = (if \<exists>poster \<in> followed_by g n. (poster, p) \<in> set (posted g) then 3 / 2 else 1)
                   * of_nat (card (followed_likers g n p))"
proof -
  define m1 where "m1 = [(p, followed). a \<leftarrow> accounts g, a = n,
          (s, followed) \<leftarrow> follows g, s = a, followed \<in> set (accounts g),
          (l, p) \<leftarrow> likes g, l = followed, p \<in> set (map fst (posts g)),
          (a, p) \<notin> set (likes g)]"
  define L where "L = (\<lambda>p. [p2. a \<leftarrow> accounts g, a = n,
          (s, poster) \<leftarrow> follows g, s = a, poster \<in> set (accounts g),
          (u, p2) \<leftarrow> posted g, u = poster, p2 \<in> set (map fst (posts g)), p = p2])"
  define w1 where "w1 = [(p, length (remdups followed)). (p, followed) \<leftarrow> group_by m1]"
  define m2 where "m2 = [((p, followed_likes), p2). (p, followed_likes) \<leftarrow> w1, p2 \<leftarrow> optional (L p)]"
  define w2 where "w2 = [(p, followed_likes, length (non_null p2s) > 0).
                  ((p, followed_likes), p2s) \<leftarrow> group_by m2]"
  have all_rows: "recommend_posts_rows g n =
      map (\<lambda>(p, followed_likes, from_followed).
             (p, map_of (posts g) p, (if from_followed then 3 / 2 else 1) * of_nat followed_likes)) w2"
    unfolding recommend_posts_rows_def Let_def m1_def L_def w1_def m2_def w2_def
    by (simp add: case_prod_beta o_def)
  from r obtain fl ff where w2: "(p, fl, ff) \<in> set w2"
    and score: "score = (if ff then 3 / 2 else 1) * of_nat fl"
    unfolding all_rows by auto
  from w2 obtain p2s where g2: "((p, fl), p2s) \<in> set (group_by m2)"
    and ff: "ff = (length (non_null p2s) > 0)"
    unfolding w2_def by auto
  from g2 have k2: "(p, fl) \<in> fst ` set m2"
    and p2s: "p2s = map snd (filter (\<lambda>r. fst r = (p, fl)) m2)"
    by (simp_all add: group_by_mem)
  from k2 have in_w1: "(p, fl) \<in> set w1"
    unfolding m2_def by (auto simp: case_prod_beta)
  then obtain fs where g1: "(p, fs) \<in> set (group_by m1)" and fl: "fl = length (remdups fs)"
    unfolding w1_def by auto
  from g1 have k1: "p \<in> fst ` set m1" and fs: "fs = map snd (filter (\<lambda>r. fst r = p) m1)"
    by (simp_all add: group_by_mem)
  have m1_set: "set m1 = {(p, f). f \<in> followed_by g n \<and> (f, p) \<in> set (likes g)
        \<and> p \<in> fst ` set (posts g) \<and> (n, p) \<notin> set (likes g)}"
    unfolding m1_def by (rule liked_by_followed_set)
  from k1 obtain f where f: "f \<in> followed_by g n" "(f, p) \<in> set (likes g)"
    and post: "p \<in> fst ` set (posts g)" and unliked: "(n, p) \<notin> set (likes g)"
    unfolding m1_set by force
  have "set fs = followed_likers g n p"
    unfolding fs followed_likers_def using post unliked by (force simp: m1_set image_iff)
  then have count: "fl = card (followed_likers g n p)"
    unfolding fl by (simp add: length_remdups_card_conv)
  have L_set: "set (L p) = {p2. p2 = p \<and> p \<in> fst ` set (posts g)
        \<and> (\<exists>poster \<in> followed_by g n. (poster, p) \<in> set (posted g))}"
    unfolding L_def by (rule posted_by_followed_set)
  have vals: "set p2s = set (optional (L p))"
    unfolding p2s m2_def using in_w1 by (force simp: case_prod_beta)
  have "ff \<longleftrightarrow> L p \<noteq> []"
    unfolding ff using vals by (cases "L p") (auto simp: non_null_empty set_optional)
  also have "\<dots> \<longleftrightarrow> (\<exists>poster \<in> followed_by g n. (poster, p) \<in> set (posted g))"
    using L_set post by (auto simp: set_empty [symmetric] simp del: set_empty)
  finally show ?thesis
    using f unliked score count by auto
qed


theorem find_similar_accounts_follows_nobody_witness:
  "followed_by sample_graph ''Y'' = {} \<and> find_similar_accounts sample_graph ''Y'' 10 = Inr []"
proof -
  have h: "followed_by sample_graph ''Y'' = {}"
    by (auto simp: followed_by_def sample_graph_def)
  from h find_similar_accounts_follows_nobody [OF h, of 10] show ?thesis
    by simp
qed

theorem find_similar_accounts_bounds_witness:
  "distinct (accounts sample_graph) \<and> distinct (follows sample_graph)
   \<and> find_similar_accounts sample_graph ''A'' 10 = Inr [(''C'', 2, 1), (''B'', 1, 1 / 2)]
   \<and> (''B'', 1, 1 / 2) \<in> set [(''C'', 2, 1), (''B'', 1, 1 / 2 :: rat)]
   \<and> (1::nat) \<le> 1 \<and> 1 \<le> card (followed_by sample_graph ''A'') \<and> (0::rat) < 1 / 2 \<and> (1 / 2 :: rat) \<le> 1"
proof -
  have a: "distinct (accounts sample_graph)" by (simp add: sample_graph_def)
  have b: "distinct (follows sample_graph)" by (simp add: sample_graph_def)
  have c: "find_similar_accounts sample_graph ''A'' 10 = Inr [(''C'', 2, 1), (''B'', 1, 1 / 2)]"
    by code_simp
  have d: "(''B'', 1, 1 / 2) \<in> set [(''C'', 2, 1), (''B'', 1, 1 / 2 :: rat)]" by simp
  from find_similar_accounts_bounds [OF a b c d] a b c d show ?thesis
    by blast
qed

text \<open>
  C6, as stated, fails: \<^verbatim>\<open>LIMIT $limit\<close> cuts the sequence. With \<open>limit = 1\<close> only C is
  returned for A, although B also shares a followed account with A.
\<close>

theorem find_similar_accounts_limit_cuts:
  "find_similar_accounts sample_graph ''A'' 1 = Inr [(''C'', 2, 1)]
   \<and> ''B'' \<in> set (accounts sample_graph) \<and> ''B'' \<noteq> ''A''
   \<and> 0 < card (followed_by sample_graph ''A'' \<inter> followed_by sample_graph ''B'')"
proof -
  have "find_similar_accounts sample_graph ''A'' 1 = Inr [(''C'', 2, 1)]"
    by code_simp
  moreover have "''X'' \<in> followed_by sample_graph ''A'' \<inter> followed_by sample_graph ''B''"
    by (simp add: followed_by_def sample_graph_def)
  then have "0 < card (followed_by sample_graph ''A'' \<inter> followed_by sample_graph ''B'')"
    using finite_followed_by [of sample_graph "''A''"] by (auto simp: card_gt_0_iff)
  moreover have "''B'' \<in> set (accounts sample_graph)"
    by (simp add: sample_graph_def)
  ultimately show ?thesis by simp
qed

text \<open>The order of \<^verbatim>\<open>ORDER BY similarity_score DESC, common_follows DESC\<close>, spelled out.\<close>

lemma less_eq_similarity_order:
  "similarity_order (a, c, s) \<le> similarity_order (a', c', s') \<longleftrightarrow> s' < s \<or> (s' = s \<and> c' \<le> c)"
  by (auto simp: similarity_order_def less_eq_prod_def)

text \<open>
  C6, amended: for a graph with unique account names and at most one \<^verbatim>\<open>Follows\<close>
  relationship per ordered pair, in which the source account follows at least one
  account, the result is the first \<open>limit\<close> rows of a sequence \<open>full\<close> that holds exactly
  the other accounts \<open>o\<close> with \<open>|F \<inter> Fo| > 0\<close>, each once, with
  \<open>common_follows = |F \<inter> Fo|\<close> and \<open>similarity_score = |F \<inter> Fo| / |F|\<close>, sorted
  descending by score and then by common follows.
\<close>

theorem find_similar_accounts_first_limit:
  assumes d: "distinct (accounts g)" and e: "distinct (follows g)"
    and f: "followed_by g account_name \<noteq> {}"
  shows "\<exists>full. find_similar_accounts g account_name limit = Inr (take limit full)
     \<and> set full =
         {(other, card (followed_by g account_name \<inter> followed_by g other),
             of_nat (card (followed_by g account_name \<inter> followed_by g other))
               / of_nat (card (followed_by g account_name))) | other.
          other \<in> set (accounts g) \<and> other \<noteq> account_name
          \<and> 0 < card (followed_by g account_name \<inter> followed_by g other)}
     \<and> distinct (map fst full)
     \<and> sorted_wrt (\<lambda>(a, c, s) (a', c', s'). s' < s \<or> (s' = s \<and> c' \<le> c)) full"
proof -
  let ?F = "followed_by g account_name"
  let ?h = "\<lambda>other. (other, card (?F \<inter> followed_by g other),
                (of_nat (card (?F \<inter> followed_by g other)) / of_nat (card ?F) :: rat))"
  let ?cand = "filter (\<lambda>other. other \<noteq> account_name \<and> 0 < card (?F \<inter> followed_by g other)) (accounts g)"
  let ?rows = "sort_key similarity_order (map ?h ?cand)"
  have 1: "find_similar_accounts g account_name limit = Inr (take limit ?rows)"
    unfolding find_similar_accounts_def similar_accounts_rows_card [OF d e f] by simp
  have 2: "set ?rows = {?h other | other. other \<in> set (accounts g) \<and> other \<noteq> account_name
          \<and> 0 < card (?F \<inter> followed_by g other)}"
    by auto
  have "distinct (map fst (map ?h ?cand))"
    using d by (simp add: o_def)
  then have "distinct (map ?h ?cand) \<and> inj_on fst (set (map ?h ?cand))"
    unfolding distinct_map [of fst] .
  then have "distinct ?rows \<and> inj_on fst (set ?rows)"
    by simp
  then have 3: "distinct (map fst ?rows)"
    unfolding distinct_map [of fst] .
  have "sorted (map similarity_order ?rows)"
    by (rule sorted_sort_key)
  then have "sorted_wrt (\<lambda>x y. similarity_order x \<le> similarity_order y) ?rows"
    by (simp only: sorted_map)
  then have 4: "sorted_wrt (\<lambda>(a, c, s) (a', c', s'). s' < s \<or> (s' = s \<and> c' \<le> c)) ?rows"
    by (rule sorted_wrt_mono_rel [rotated]) (auto simp: less_eq_similarity_order)
  from 1 2 3 4 show ?thesis
    by blast
qed


theorem find_similar_accounts_first_limit_witness:
  "distinct (accounts sample_graph) \<and> distinct (follows sample_graph)
   \<and> followed_by sample_graph ''A'' \<noteq> {}
   \<and> (\<exists>full. find_similar_accounts sample_graph ''A'' 1 = Inr (take 1 full)
     \<and> set full =
         {(other, card (followed_by sample_graph ''A'' \<inter> followed_by sample_graph other),
             of_nat (card (followed_by sample_graph ''A'' \<inter> followed_by sample_graph other))
               / of_nat (card (followed_by sample_graph ''A''))) | other.
          other \<in> set (accounts sample_graph) \<and> other \<noteq> ''A''
          \<and> 0 < card (followed_by sample_graph ''A'' \<inter> followed_by sample_graph other)}
     \<and> distinct (map fst full)
     \<and> sorted_wrt (\<lambda>(a, c, s) (a', c', s'). s' < s \<or> (s' = s \<and> c' \<le> c)) full)"
proof -
  have a: "distinct (accounts sample_graph)" by (simp add: sample_graph_def)
  have b: "distinct (follows sample_graph)" by (simp add: sample_graph_def)
  have "''X'' \<in> followed_by sample_graph ''A''"
    by (simp add: followed_by_def sample_graph_def)
  then have c: "followed_by sample_graph ''A'' \<noteq> {}" by blast
  from find_similar_accounts_first_limit [OF a b c, of 1] a b c show ?thesis
    by blast
qed

text \<open>
  C8. For every graph, the rows of \<^verbatim>\<open>recommend_posts\<close> are sorted descending by score, and
  each row is a post liked by a followed account and not liked by the source account,
  with score \<open>1.5\<close> times (author followed) or \<open>1\<close> times (otherwise) the number of
  distinct followed accounts that like it.
\<close>

theorem recommend_posts_sound:
  "sorted_wrt (\<lambda>(p, c, s) (p', c', s'). s' \<le> s) (recommend_posts g account_name limit)
   \<and> (\<forall>(post_id, content, recommendation_score) \<in> set (recommend_posts g account_name limit).
        (\<exists>f \<in> followed_by g account_name. (f, post_id) \<in> set (likes g))
        \<and> (account_name, post_id) \<notin> set (likes g)
        \<and> recommendation_score =
            (if \<exists>poster \<in> followed_by g account_name. (poster, post_id) \<in> set (posted g)
             then 3 / 2 else 1) * of_nat (card (followed_likers g account_name post_id)))"
proof -
  let ?key = "\<lambda>(post_id :: post_id, content :: string option, recommendation_score :: rat). - recommendation_score"
  let ?all = "sort_key ?key (recommend_posts_rows g account_name)"
  have "sorted (map ?key ?all)"
    by (rule sorted_sort_key)
  then have "sorted_wrt (\<lambda>x y. ?key x \<le> ?key y) ?all"
    by (simp only: sorted_map)
  then have "sorted_wrt (\<lambda>(p, c, s) (p', c', s'). s' \<le> s) ?all"
    by (rule sorted_wrt_mono_rel [rotated]) auto
  then have 1: "sorted_wrt (\<lambda>(p, c, s) (p', c', s'). s' \<le> s) (recommend_posts g account_name limit)"
    unfolding recommend_posts_def by (rule sorted_wrt_take)
  have "set (recommend_posts g account_name limit) \<subseteq> set (recommend_posts_rows g account_name)"
    unfolding recommend_posts_def using set_take_subset [of limit ?all] by simp
  then have 2: "\<forall>(post_id, content, recommendation_score) \<in> set (recommend_posts g account_name limit).
        (\<exists>f \<in> followed_by g account_name. (f, post_id) \<in> set (likes g))
        \<and> (account_name, post_id) \<notin> set (likes g)
        \<and> recommendation_score =
            (if \<exists>poster \<in> followed_by g account_name. (poster, post_id) \<in> set (posted g)
             then 3 / 2 else 1) * of_nat (card (followed_likers g account_name post_id))"
    using recommend_posts_rows_mem [of _ _ _ g account_name] by blast
  from 1 2 show ?thesis ..
qed

theorem recommend_posts_sound_witness:
  "recommend_posts sample_graph ''A'' 10 = [(''p1'', Some ''hello'', 3), (''p2'', Some ''world'', 1)]
   \<and> (\<exists>f \<in> followed_by sample_graph ''A''. (f, ''p1'') \<in> set (likes sample_graph))
   \<and> (''A'', ''p1'') \<notin> set (likes sample_graph)
   \<and> (3 :: rat) =
        (if \<exists>poster \<in> followed_by sample_graph ''A''. (poster, ''p1'') \<in> set (posted sample_graph)
         then 3 / 2 else 1) * of_nat (card (followed_likers sample_graph ''A'' ''p1''))
   \<and> (\<exists>f \<in> followed_by sample_graph ''A''. (f, ''p2'') \<in> set (likes sample_graph))
   \<and> (''A'', ''p2'') \<notin> set (likes sample_graph)
   \<and> (1 :: rat) =
        (if \<exists>poster \<in> followed_by sample_graph ''A''. (poster, ''p2'') \<in> set (posted sample_graph)
         then 3 / 2 else 1) * of_nat (card (followed_likers sample_graph ''A'' ''p2''))"
proof -
  have e: "recommend_posts sample_graph ''A'' 10 = [(''p1'', Some ''hello'', 3), (''p2'', Some ''world'', 1)]"
    by code_simp
  from recommend_posts_sound [of sample_graph "''A''" 10] show ?thesis
    unfolding e by simp
qed


section \<open>Properties of the profile parser\<close>

text \<open>
  The matcher only ever takes text off the front (\<open>consumes\<close>), leaves the groups of
  other numbers alone, and a group holds a piece of the scanned text (\<open>sets\<close>).
\<close>

lemma spans_split: "s' \<in> set (spans p s) \<Longrightarrow> \<exists>t. s = t @ s' \<and> list_all p t"
proof (induction s)
  case Nil
  then show ?case by simp
next
  case (Cons c cs)
  show ?case
  proof (cases "s' = c # cs")
    case True
    then have "c # cs = [] @ s' \<and> list_all p []" by simp
    then show ?thesis by blast
  next
    case False
    with Cons.prems have "p c" and "s' \<in> set (spans p cs)"
      by (auto split: if_splits)
    from Cons.IH [OF this(2)] obtain t where "cs = t @ s'" "list_all p t"
      by blast
    with \<open>p c\<close> have "c # cs = (c # t) @ s' \<and> list_all p (c # t)"
      by simp
    then show ?thesis by blast
  qed
qed

lemma spans_tl_split:
  assumes "s' \<in> set (tl (spans p s))"
  shows "\<exists>t. s = t @ s' \<and> list_all p t \<and> t \<noteq> []"
proof (cases s)
  case Nil
  with assms show ?thesis by simp
next
  case (Cons c cs)
  with assms have "p c" and "s' \<in> set (spans p cs)"
    by (auto split: if_splits)
  from spans_split [OF this(2)] obtain t where "cs = t @ s'" "list_all p t"
    by blast
  with Cons \<open>p c\<close> have "s = (c # t) @ s' \<and> list_all p (c # t) \<and> c # t \<noteq> []"
    by simp
  then show ?thesis by blast
qed

lemma consumes_Eps: "consumes fl Eps (\<lambda>t. t = [])"
  by (simp add: consumes_def)

lemma consumes_One: "consumes fl (One a) (\<lambda>t. \<exists>c. t = [c] \<and> atom_ok fl a c)"
  by (auto simp: consumes_def split: list.splits if_splits)

lemma consumes_Star: "consumes fl (Star a) (list_all (atom_ok fl a))"
  by (auto simp: consumes_def dest: spans_split)

lemma consumes_Plus: "consumes fl (Plus a) (\<lambda>t. t \<noteq> [] \<and> list_all (atom_ok fl a) t)"
  unfolding consumes_def
  by (auto dest!: spans_tl_split)

lemma consumes_PlusLazy: "consumes fl (PlusLazy a) (\<lambda>t. t \<noteq> [] \<and> list_all (atom_ok fl a) t)"
  unfolding consumes_def
  by (auto dest!: spans_tl_split)

lemma consumes_Seq:
  assumes "consumes fl r1 P1" and "consumes fl r2 P2"
  shows "consumes fl (Seq r1 r2) (\<lambda>t. \<exists>t1 t2. t = t1 @ t2 \<and> P1 t1 \<and> P2 t2)"
  unfolding consumes_def
proof (intro allI impI)
  fix s g g' s'
  assume "(g', s') \<in> set (rmatch fl (Seq r1 r2) s g)"
  then obtain g1 s1 where 1: "(g1, s1) \<in> set (rmatch fl r1 s g)"
    and 2: "(g', s') \<in> set (rmatch fl r2 s1 g1)"
    by auto
  from assms(1) 1 obtain t1 where "s = t1 @ s1" "P1 t1"
    unfolding consumes_def by blast
  moreover from assms(2) 2 obtain t2 where "s1 = t2 @ s'" "P2 t2"
    unfolding consumes_def by blast
  ultimately have "s = (t1 @ t2) @ s' \<and> P1 t1 \<and> P2 t2"
    by simp
  then show "\<exists>t. s = t @ s' \<and> (\<exists>t1 t2. t = t1 @ t2 \<and> P1 t1 \<and> P2 t2)"
    by blast
qed

lemma consumes_mono: "consumes fl r P \<Longrightarrow> (\<And>t. P t \<Longrightarrow> Q t) \<Longrightarrow> consumes fl r Q"
  unfolding consumes_def by blast

lemma consumes_Group: "consumes fl r P \<Longrightarrow> consumes fl (Group n r) P"
  unfolding consumes_def by auto

lemma consumes_any: "consumes fl r (\<lambda>t. True)"
proof (induction r)
  case Eps
  show ?case by (rule consumes_mono [OF consumes_Eps]) simp
next
  case (One a)
  show ?case by (rule consumes_mono [OF consumes_One]) simp
next
  case (Star a)
  show ?case by (rule consumes_mono [OF consumes_Star]) simp
next
  case (Plus a)
  show ?case by (rule consumes_mono [OF consumes_Plus]) simp
next
  case (PlusLazy a)
  show ?case by (rule consumes_mono [OF consumes_PlusLazy]) simp
next
  case (Seq r1 r2)
  show ?case by (rule consumes_mono [OF consumes_Seq [OF Seq.IH]]) simp
next
  case (Alt r1 r2)
  then show ?case unfolding consumes_def by auto
next
  case (Group n r)
  then show ?case by (rule consumes_Group)
next
  case (Ahead r)
  show ?case unfolding consumes_def by (auto split: if_splits)
next
  case EndStr
  show ?case unfolding consumes_def by (auto split: if_splits)
qed

lemma rmatch_suffix: "(g', s') \<in> set (rmatch fl r s g) \<Longrightarrow> \<exists>t. s = t @ s'"
  using consumes_any [of fl r] unfolding consumes_def by blast

lemma rmatch_frame:
  "(g', s') \<in> set (rmatch fl r s g) \<Longrightarrow> n \<notin> groups_of r \<Longrightarrow> g' n = g n"
proof (induction r arbitrary: s g g' s')
  case (Seq r1 r2)
  from Seq.prems(1) obtain g1 s1 where "(g1, s1) \<in> set (rmatch fl r1 s g)"
    and "(g', s') \<in> set (rmatch fl r2 s1 g1)"
    by auto
  with Seq.IH [of _ _ _ _] Seq.prems(2) show ?case
    by (metis UnI1 UnI2 groups_of.simps(1))
next
  case (One a)
  then show ?case by (auto split: list.splits if_splits)
next
  case (Ahead r)
  then show ?case by (auto split: if_splits)
next
  case EndStr
  then show ?case by (auto split: if_splits)
qed auto

lemma sets_Group: "consumes fl r P \<Longrightarrow> sets fl (Group n r) n P"
  unfolding sets_def
proof (intro allI impI)
  fix s g g' s'
  assume c: "consumes fl r P" and "(g', s') \<in> set (rmatch fl (Group n r) s g)"
  then obtain g1 where 1: "(g1, s') \<in> set (rmatch fl r s g)"
    and 2: "g' = g1(n \<mapsto> take (length s - length s') s)"
    by auto
  from c 1 obtain t where "s = t @ s'" "P t"
    unfolding consumes_def by blast
  with 2 have "g' n = Some t \<and> P t \<and> sublist t s"
    by (auto simp: sublist_def intro: exI [of _ "[]"])
  then show "\<exists>t. g' n = Some t \<and> P t \<and> sublist t s" ..
qed

lemma sets_Seq_left:
  assumes "sets fl r1 n P" and "n \<notin> groups_of r2"
  shows "sets fl (Seq r1 r2) n P"
  unfolding sets_def
proof (intro allI impI)
  fix s g g' s'
  assume "(g', s') \<in> set (rmatch fl (Seq r1 r2) s g)"
  then obtain g1 s1 where 1: "(g1, s1) \<in> set (rmatch fl r1 s g)"
    and 2: "(g', s') \<in> set (rmatch fl r2 s1 g1)"
    by auto
  from assms(1) 1 obtain t where "g1 n = Some t" "P t" "sublist t s"
    unfolding sets_def by blast
  with rmatch_frame [OF 2 assms(2)] show "\<exists>t. g' n = Some t \<and> P t \<and> sublist t s"
    by simp
qed

lemma sets_Seq_right:
  assumes "sets fl r2 n P"
  shows "sets fl (Seq r1 r2) n P"
  unfolding sets_def
proof (intro allI impI)
  fix s g g' s'
  assume "(g', s') \<in> set (rmatch fl (Seq r1 r2) s g)"
  then obtain g1 s1 where 1: "(g1, s1) \<in> set (rmatch fl r1 s g)"
    and 2: "(g', s') \<in> set (rmatch fl r2 s1 g1)"
    by auto
  from assms 2 obtain t where t: "g' n = Some t" "P t" "sublist t s1"
    unfolding sets_def by blast
  from rmatch_suffix [OF 1] obtain u where "s = u @ s1" ..
  with t(3) have "sublist t s"
    by (auto simp: sublist_def) (metis append.assoc)
  with t show "\<exists>t. g' n = Some t \<and> P t \<and> sublist t s"
    by blast
qed

lemma search_Some:
  "search fl r s = Some (g, m, rest) \<Longrightarrow>
     \<exists>u s0. s = u @ s0 \<and> (g, rest) \<in> set (rmatch fl r s0 Map.empty)
        \<and> m = take (length s0 - length rest) s0"
proof (induction s)
  case Nil
  then show ?case
    by (auto simp: search.simps [of _ _ "[]"] split: list.splits)
next
  case (Cons c cs)
  show ?case
  proof (cases "rmatch fl r (c # cs) Map.empty")
    case Nil
    with Cons.prems have "search fl r cs = Some (g, m, rest)"
      by (simp add: search.simps [of _ _ "c # cs"])
    from Cons.IH [OF this] obtain u s0 where "cs = u @ s0"
      "(g, rest) \<in> set (rmatch fl r s0 Map.empty)" "m = take (length s0 - length rest) s0"
      by blast
    then have "c # cs = (c # u) @ s0 \<and> (g, rest) \<in> set (rmatch fl r s0 Map.empty)
        \<and> m = take (length s0 - length rest) s0"
      by simp
    then show ?thesis by blast
  next
    case (Cons x xs)
    with Cons.prems have "c # cs = [] @ (c # cs) \<and> (g, rest) \<in> set (rmatch fl r (c # cs) Map.empty)
        \<and> m = take (length (c # cs) - length rest) (c # cs)"
      by (auto simp: search.simps [of _ _ "c # cs"] split: prod.splits)
    then show ?thesis by blast
  qed
qed

lemma search_sets:
  assumes "sets fl r n P" and "search fl r s = Some (g, m, rest)"
  shows "\<exists>t. g n = Some t \<and> P t \<and> sublist t s"
proof -
  from search_Some [OF assms(2)] obtain u s0 where s: "s = u @ s0"
    and "(g, rest) \<in> set (rmatch fl r s0 Map.empty)"
    by blast
  with assms(1) obtain t where t: "g n = Some t" "P t" "sublist t s0"
    unfolding sets_def by blast
  from t(3) s have "sublist t s"
    by (auto simp: sublist_def) (metis append.assoc)
  with t show ?thesis by blast
qed

lemma search_parts:
  assumes "search fl r s = Some (g, m, rest)"
  shows "\<exists>u. s = u @ m @ rest"
proof -
  from search_Some [OF assms] obtain u s0 where s: "s = u @ s0"
    and r: "(g, rest) \<in> set (rmatch fl r s0 Map.empty)"
    and m: "m = take (length s0 - length rest) s0"
    by blast
  from rmatch_suffix [OF r] obtain t where "s0 = t @ rest" ..
  with m s have "s = u @ m @ rest" by simp
  then show ?thesis ..
qed


lemma findall_unguarded:
  "findall fl r s =
     (case search fl r s of
        None \<Rightarrow> []
      | Some (g, matched, rest) \<Rightarrow>
          (case g 1 of None \<Rightarrow> [] | Some x \<Rightarrow> x) #
          (if matched = []
           then (case rest of [] \<Rightarrow> [] | _ # cs \<Rightarrow> findall fl r cs)
           else findall fl r rest))"
proof (cases "search fl r s")
  case None
  then show ?thesis
    by (subst findall.simps) (simp only: option.case)
next
  case (Some a)
  obtain g m rest where a: "a = (g, m, rest)"
    by (cases a)
  from search_parts [OF Some [unfolded a]] obtain u where s: "s = u @ m @ rest" ..
  have f: "findall fl r s =
      (case g 1 of None \<Rightarrow> [] | Some x \<Rightarrow> x) #
          (if m = []
           then (case rest of
                   [] \<Rightarrow> []
                 | _ # cs \<Rightarrow> if length cs < length s then findall fl r cs else [])
           else if length rest < length s then findall fl r rest else [])"
    by (subst findall.simps) (simp only: Some a option.case prod.case)
  show ?thesis
  proof (cases "m = []")
    case True
    show ?thesis
    proof (cases rest)
      case Nil
      with True show ?thesis
        unfolding f by (simp add: Some a)
    next
      case (Cons c cs)
      with s have "length cs < length s" by simp
      with True Cons show ?thesis
        unfolding f by (simp add: Some a)
    qed
  next
    case False
    with s have "length rest < length s" by simp
    with False show ?thesis
      unfolding f by (simp add: Some a)
  qed
qed

lemma seqs_Nil: "seqs [] = Eps"
  by (simp add: seqs_def)

lemma seqs_Cons: "seqs (r # rs) = Seq r (seqs rs)"
  by (simp add: seqs_def)

lemma groups_of_str: "groups_of (str lit) = {}"
  by (induction lit) (simp_all add: str_def)

lemma consumes_str: "\<not> ignorecase fl \<Longrightarrow> consumes fl (str lit) (\<lambda>t. t = lit)"
proof (induction lit)
  case Nil
  then show ?case by (simp add: str_def consumes_Eps)
next
  case (Cons c lit)
  have e: "str (c # lit) = Seq (One (Lit c)) (str lit)"
    by (simp add: str_def)
  show ?case
    unfolding e
    by (rule consumes_mono [OF consumes_Seq [OF consumes_One Cons.IH [OF Cons.prems]]])
       (use Cons.prems in auto)
qed

lemma consumes_digits: "consumes fl (Plus Digit) digits"
  by (rule consumes_mono [OF consumes_Plus]) (simp add: digits_def list_all_iff)

lemma consumes_decimal_point:
  "\<not> ignorecase fl \<Longrightarrow> consumes fl (seqs [Plus Digit, str ''.'', Plus Digit]) decimal_point"
  unfolding seqs_Cons seqs_Nil
  by (rule consumes_mono [OF consumes_Seq [OF consumes_digits
        consumes_Seq [OF consumes_str consumes_Seq [OF consumes_digits consumes_Eps]]]])
     (auto simp: decimal_point_def)

lemma groups_of_seqs: "groups_of (seqs rs) = (\<Union>r \<in> set rs. groups_of r)"
  by (induction rs) (simp_all add: seqs_Nil seqs_Cons)

lemma sets_seqs:
  "sets fl r n P \<Longrightarrow> n \<notin> groups_of (seqs after) \<Longrightarrow> sets fl (seqs (before @ r # after)) n P"
  by (induction before) (simp_all add: seqs_Cons sets_Seq_left sets_Seq_right)

lemma sets_time_re_1: "sets fl time_re 1 digits"
  unfolding time_re_def
  using sets_seqs [of fl "Group 1 (Plus Digit)" 1 digits
      "[str '' total db hits in '', Group 2 (seqs [Plus Digit, str ''.'', Plus Digit]), str '' ms.'']"
      "[str ''Cypher version:'', Plus Dot, str '', planner: '', Plus Word,
        str '', runtime: '', Plus Word, str ''. '']"]
  by (simp add: sets_Group consumes_digits groups_of_seqs groups_of_str)

lemma sets_time_re_2: "\<not> ignorecase fl \<Longrightarrow> sets fl time_re 2 decimal_point"
  unfolding time_re_def
  using sets_seqs [of fl "Group 2 (seqs [Plus Digit, str ''.'', Plus Digit])" 2 decimal_point
      "[str '' ms.'']"
      "[str ''Cypher version:'', Plus Dot, str '', planner: '', Plus Word,
        str '', runtime: '', Plus Word, str ''. '', Group 1 (Plus Digit), str '' total db hits in '']"]
  by (simp add: sets_Group consumes_decimal_point groups_of_seqs groups_of_str)


lemma sets_planning_re: "\<not> ignorecase fl \<Longrightarrow> sets fl planning_re 1 decimal_point"
  unfolding planning_re_def
  using sets_seqs [of fl "Group 1 (seqs [Plus Digit, str ''.'', Plus Digit])" 1 decimal_point
      "[str '' ms'']" "[str ''planning: '']"]
  by (simp add: sets_Group consumes_decimal_point groups_of_seqs groups_of_str)

lemma sets_memory_re: "sets fl memory_re 1 (\<lambda>t. True)"
  unfolding memory_re_def
  using sets_seqs [of fl "Group 1 (seqs [Plus (In [ClassDigit, Ch CHR ''.'']), Star Space,
                    One (In [Ch CHR ''K'', Ch CHR ''M'', Ch CHR ''G'']), str ''B''])" 1 "\<lambda>t. True"
      "[Star Space, str '']'']" "[str ''memory'', Star Space, str ''['', Star Space]"]
  by (simp add: sets_Group consumes_any groups_of_seqs groups_of_str)

lemma sets_block_re: "sets fl block_re 1 (\<lambda>t. True)"
  unfolding block_re_def
  using sets_seqs [of fl "Group 1 (PlusLazy (NotIn [Ch CHR ''+'']))" 1 "\<lambda>t. True"
      "[Ahead (Alt (str ''+'') EndStr)]" "[str ''+'', Star (Lit CHR ''-'')]"]
  by (simp add: sets_Group consumes_any groups_of_seqs groups_of_str)

lemma sets_name_re: "sets fl name_re 1 (\<lambda>t. True)"
  unfolding name_re_def by (rule sets_Group [OF consumes_any])

lemma sets_db_hits_re: "sets fl db_hits_re 1 digits"
  unfolding db_hits_re_def
  using sets_seqs [of fl "Group 1 (Plus Digit)" 1 digits
      "[Star Space, str '']'']" "[str ''db hits'', Star Space, str ''['', Star Space]"]
  by (simp add: sets_Group consumes_digits groups_of_seqs groups_of_str)

lemma sets_rows_re: "sets fl rows_re 1 digits"
  unfolding rows_re_def
  using sets_seqs [of fl "Group 1 (Plus Digit)" 1 digits
      "[Star Space, str '']'']" "[str ''rows'', Star Space, str ''['', Star Space]"]
  by (simp add: sets_Group consumes_digits groups_of_seqs groups_of_str)

lemma sets_elapsed_re: "sets fl elapsed_re 1 digits"
  unfolding elapsed_re_def
  using sets_seqs [of fl "Group 1 (Plus Digit)" 1 digits
      "[Star Space, str ''ms'', Star Space, str '']'']"
      "[str ''elapsed'', Star Space, str ''['', Star Space]"]
  by (simp add: sets_Group consumes_digits groups_of_seqs groups_of_str)

lemma sets_index_re: "sets fl index_re 2 (\<lambda>t. True)"
  unfolding index_re_def
  using sets_seqs [of fl "Group 2 (PlusLazy Dot)" 2 "\<lambda>t. True" "[str '')'']"
      "[Group 1 (Alt (str ''Index'') (str ''NodeIndexSeek'')), Plus Dot, str ''('']"]
  by (simp add: sets_Group consumes_any groups_of_seqs groups_of_str)

lemma sets_cache_hits_re: "sets fl cache_hits_re 1 digits"
  unfolding cache_hits_re_def
  using sets_seqs [of fl "Group 1 (Plus Digit)" 1 digits "[]" "[str ''cache hits: '']"]
  by (simp add: sets_Group consumes_digits groups_of_seqs)

lemma sets_cache_misses_re: "sets fl cache_misses_re 1 digits"
  unfolding cache_misses_re_def
  using sets_seqs [of fl "Group 1 (Plus Digit)" 1 digits "[]" "[str ''cache misses: '']"]
  by (simp add: sets_Group consumes_digits groups_of_seqs)

lemma py_int_digits:
  "digits t \<Longrightarrow> length t \<le> max_str_digits \<Longrightarrow> py_int (Some t) = Inr (int (decimal t))"
  by (simp add: py_int_def digits_def)

lemma py_float_decimal_point:
  assumes "decimal_point t"
  shows "\<exists>y. py_float (Some t) = Inr y"
proof -
  from assms obtain t1 t2 where t: "t = t1 @ ''.'' @ t2" and d1: "digits t1" and d2: "digits t2"
    unfolding decimal_point_def by blast
  have nd: "\<not> is_digit CHR ''.''"
    by (simp add: is_digit_def)
  from d1 have a: "\<forall>x \<in> set t1. is_digit x"
    by (simp add: digits_def list_all_iff)
  have 1: "takeWhile is_digit t = t1"
    unfolding t using a nd by (simp add: takeWhile_append2)
  have 2: "dropWhile is_digit t = CHR ''.'' # t2"
    unfolding t using a nd by (simp add: dropWhile_append2)
  show ?thesis
    using d1 d2 by (simp add: py_float_def 1 2 digits_def)
qed

lemma int_on_match:
  assumes "sets fl r n digits" and "short_digit_runs s"
  shows "\<exists>st'. on_match fl r s (int_step n upd) st = Inr st'
           \<and> (search fl r s = None \<longrightarrow> st' = st) \<and> (st' = st \<or> (\<exists>x. st' = upd x st))"
proof (cases "search fl r s")
  case None
  then show ?thesis by (simp add: on_match_def)
next
  case (Some a)
  obtain g m rest where a: "a = (g, m, rest)" by (cases a)
  from search_sets [OF assms(1) Some [unfolded a]] obtain t where
    t: "g n = Some t" "digits t" "sublist t s"
    by blast
  with assms(2) have "length t \<le> max_str_digits"
    by (simp add: short_digit_runs_def digits_def)
  with t Some a show ?thesis
    by (auto simp: on_match_def int_step_def py_int_digits)
qed

lemma float_on_match:
  assumes "sets fl r n decimal_point"
  shows "\<exists>st'. on_match fl r s (float_step n upd) st = Inr st'
           \<and> (search fl r s = None \<longrightarrow> st' = st) \<and> (st' = st \<or> (\<exists>x. st' = upd x st))"
proof (cases "search fl r s")
  case None
  then show ?thesis by (simp add: on_match_def)
next
  case (Some a)
  obtain g m rest where a: "a = (g, m, rest)" by (cases a)
  from search_sets [OF assms(1) Some [unfolded a]] obtain t where
    t: "g n = Some t" "decimal_point t"
    by blast
  from py_float_decimal_point [OF t(2)] obtain y where "py_float (Some t) = Inr y" ..
  with t Some a show ?thesis
    by (auto simp: on_match_def float_step_def)
qed

lemma str_on_match:
  assumes "sets fl r n (\<lambda>t. True)"
  shows "\<exists>st'. on_match fl r s (str_step n upd) st = Inr st'
           \<and> (search fl r s = None \<longrightarrow> st' = st) \<and> (st' = st \<or> (\<exists>x. st' = upd x st))"
proof (cases "search fl r s")
  case None
  then show ?thesis by (simp add: on_match_def)
next
  case (Some a)
  obtain g m rest where a: "a = (g, m, rest)" by (cases a)
  from search_sets [OF assms(1) Some [unfolded a]] obtain t where "g n = Some t"
    by blast
  with Some a show ?thesis
    by (auto simp: on_match_def str_step_def py_group_def)
qed

lemma and_then_Inr: "and_then (Inr v) f = f v"
  by (simp add: and_then_def)

lemma parse_block_total:
  assumes "short_digit_runs block"
  shows "\<exists>m' opr. parse_block block (m, ops) = Inr (m', ops @ [opr])
      \<and> total_db_hits m' = total_db_hits m \<and> query_time_ms m' = query_time_ms m
      \<and> planning_time_ms m' = planning_time_ms m \<and> memory_usage m' = memory_usage m
      \<and> cache_hits m' = cache_hits m \<and> cache_misses m' = cache_misses m
      \<and> operators m' = operators m
      \<and> (search IGNORECASE db_hits_re block = None \<longrightarrow> db_hits m' = db_hits m)
      \<and> (search IGNORECASE rows_re block = None \<longrightarrow> rows m' = rows m)
      \<and> (search IGNORECASE elapsed_re block = None \<longrightarrow> elapsed_time_ms m' = elapsed_time_ms m)
      \<and> (search IGNORECASE index_re block = None \<longrightarrow> indexes_used m' = indexes_used m)"
proof -
  from str_on_match [OF sets_name_re, of no_flags block set_name "(m, new_operator)"]
  obtain st1 where p1: "on_match no_flags name_re block (str_step 1 set_name) (m, new_operator) = Inr st1"
    and c1: "st1 = (m, new_operator) \<or> (\<exists>x. st1 = set_name x (m, new_operator))"
    by (elim exE conjE) (rule that; assumption)
  from int_on_match [OF sets_db_hits_re assms, of IGNORECASE add_db_hits st1]
  obtain st2 where p2: "on_match IGNORECASE db_hits_re block (int_step 1 add_db_hits) st1 = Inr st2"
    and n2: "search IGNORECASE db_hits_re block = None \<longrightarrow> st2 = st1"
    and c2: "st2 = st1 \<or> (\<exists>x. st2 = add_db_hits x st1)"
    by (elim exE conjE) (rule that; assumption)
  from int_on_match [OF sets_rows_re assms, of IGNORECASE set_rows st2]
  obtain st3 where p3: "on_match IGNORECASE rows_re block (int_step 1 set_rows) st2 = Inr st3"
    and n3: "search IGNORECASE rows_re block = None \<longrightarrow> st3 = st2"
    and c3: "st3 = st2 \<or> (\<exists>x. st3 = set_rows x st2)"
    by (elim exE conjE) (rule that; assumption)
  from int_on_match [OF sets_elapsed_re assms, of IGNORECASE max_elapsed st3]
  obtain st4 where p4: "on_match IGNORECASE elapsed_re block (int_step 1 max_elapsed) st3 = Inr st4"
    and n4: "search IGNORECASE elapsed_re block = None \<longrightarrow> st4 = st3"
    and c4: "st4 = st3 \<or> (\<exists>x. st4 = max_elapsed x st3)"
    by (elim exE conjE) (rule that; assumption)
  from str_on_match [OF sets_index_re, of IGNORECASE block add_index st4]
  obtain st5 where p5: "on_match IGNORECASE index_re block (str_step 2 add_index) st4 = Inr st5"
    and n5: "search IGNORECASE index_re block = None \<longrightarrow> st5 = st4"
    and c5: "st5 = st4 \<or> (\<exists>x. st5 = add_index x st4)"
    by (elim exE conjE) (rule that; assumption)
  have r: "parse_block block (m, ops) = Inr (fst st5, ops @ [snd st5])"
    unfolding parse_block_def
    by (simp only: prod.case p1 p2 p3 p4 p5 and_then_Inr)
  define A where "A = db_hits (fst st2)"
  define B where "B = rows (fst st3)"
  define C where "C = elapsed_time_ms (fst st4)"
  define D where "D = indexes_used (fst st5)"
  from c1 have d1: "fst st1 = m"
    by (auto simp: set_name_def case_prod_beta)
  from c2 have d2: "fst st2 = (fst st1)\<lparr>db_hits := A\<rparr>"
    unfolding A_def by (auto simp: add_db_hits_def case_prod_beta)
  from c3 have d3: "fst st3 = (fst st2)\<lparr>rows := B\<rparr>"
    unfolding B_def by (auto simp: set_rows_def case_prod_beta)
  from c4 have d4: "fst st4 = (fst st3)\<lparr>elapsed_time_ms := C\<rparr>"
    unfolding C_def by (auto simp: max_elapsed_def case_prod_beta)
  from c5 have d5: "fst st5 = (fst st4)\<lparr>indexes_used := D\<rparr>"
    unfolding D_def by (auto simp: add_index_def case_prod_beta)
  have e: "fst st5 = m\<lparr>db_hits := A, rows := B, elapsed_time_ms := C, indexes_used := D\<rparr>"
    by (simp add: d1 d2 d3 d4 d5)
  from n2 d1 have a: "search IGNORECASE db_hits_re block = None \<longrightarrow> A = db_hits m"
    unfolding A_def by auto
  from n3 d2 d1 have b: "search IGNORECASE rows_re block = None \<longrightarrow> B = rows m"
    unfolding B_def by auto
  from n4 d3 d2 d1 have c: "search IGNORECASE elapsed_re block = None \<longrightarrow> C = elapsed_time_ms m"
    unfolding C_def by auto
  from n5 d4 d3 d2 d1 have d: "search IGNORECASE index_re block = None \<longrightarrow> D = indexes_used m"
    unfolding D_def by auto
  from r a b c d show ?thesis
    unfolding e by simp
qed

lemma short_digit_runs_sublist:
  "sublist b s \<Longrightarrow> short_digit_runs s \<Longrightarrow> short_digit_runs b"
  unfolding short_digit_runs_def
  by (meson sublist_order.order_trans)

lemma sublist_suffix: "sublist b t \<Longrightarrow> sublist b (u @ t)"
  by (auto simp: sublist_def) (metis append.assoc)

lemma findall_sublist:
  assumes "sets fl r 1 (\<lambda>t. True)"
  shows "b \<in> set (findall fl r s) \<Longrightarrow> sublist b s"
proof (induction s rule: length_induct)
  case (1 s)
  show ?case
  proof (cases "search fl r s")
    case None
    with "1.prems" show ?thesis
      by (simp add: findall_unguarded)
  next
    case (Some a)
    obtain g m rest where a: "a = (g, m, rest)" by (cases a)
    from search_parts [OF Some [unfolded a]] obtain u where s: "s = u @ m @ rest" ..
    from search_sets [OF assms Some [unfolded a]] obtain t where t: "g 1 = Some t" "sublist t s"
      by blast
    from "1.prems" Some a t have
      "b = t \<or> (m = [] \<and> (\<exists>c cs. rest = c # cs \<and> b \<in> set (findall fl r cs)))
         \<or> (m \<noteq> [] \<and> b \<in> set (findall fl r rest))"
      by (subst (asm) findall_unguarded) (auto split: list.splits if_splits)
    then show ?thesis
    proof (elim disjE conjE exE)
      assume "b = t"
      with t show ?thesis by simp
    next
      fix c cs
      assume c: "rest = c # cs" and b: "b \<in> set (findall fl r cs)"
      with s have "length cs < length s" by simp
      with "1.IH" b have "sublist b cs" by blast
      then have "sublist b ((u @ m @ [c]) @ cs)"
        by (rule sublist_suffix)
      with s c show ?thesis by simp
    next
      assume m: "m \<noteq> []" and b: "b \<in> set (findall fl r rest)"
      with s have "length rest < length s" by simp
      with "1.IH" b have "sublist b rest" by blast
      then have "sublist b ((u @ m) @ rest)"
        by (rule sublist_suffix)
      with s show ?thesis by simp
    qed
  qed
qed

lemma parse_blocks_total:
  assumes "\<forall>b \<in> set blocks. short_digit_runs b"
  shows "\<exists>m' ops'. parse_blocks blocks (m, ops) = Inr (m', ops')
      \<and> total_db_hits m' = total_db_hits m \<and> query_time_ms m' = query_time_ms m
      \<and> planning_time_ms m' = planning_time_ms m \<and> memory_usage m' = memory_usage m
      \<and> cache_hits m' = cache_hits m \<and> cache_misses m' = cache_misses m
      \<and> operators m' = operators m
      \<and> (blocks = [] \<longrightarrow> ops' = ops)
      \<and> ((\<forall>b \<in> set blocks. search IGNORECASE db_hits_re b = None) \<longrightarrow> db_hits m' = db_hits m)
      \<and> ((\<forall>b \<in> set blocks. search IGNORECASE rows_re b = None) \<longrightarrow> rows m' = rows m)
      \<and> ((\<forall>b \<in> set blocks. search IGNORECASE elapsed_re b = None)
            \<longrightarrow> elapsed_time_ms m' = elapsed_time_ms m)
      \<and> ((\<forall>b \<in> set blocks. search IGNORECASE index_re b = None)
            \<longrightarrow> indexes_used m' = indexes_used m)"
  using assms
proof (induction blocks arbitrary: m ops)
  case Nil
  then show ?case by simp
next
  case (Cons b blocks)
  from Cons.prems have sb: "short_digit_runs b" and rest: "\<forall>b \<in> set blocks. short_digit_runs b"
    by simp_all
  from parse_block_total [OF sb, of m ops] obtain m1 opr where
    1: "parse_block b (m, ops) = Inr (m1, ops @ [opr])"
    and f1: "total_db_hits m1 = total_db_hits m" "query_time_ms m1 = query_time_ms m"
      "planning_time_ms m1 = planning_time_ms m" "memory_usage m1 = memory_usage m"
      "cache_hits m1 = cache_hits m" "cache_misses m1 = cache_misses m"
      "operators m1 = operators m"
    and g1: "search IGNORECASE db_hits_re b = None \<longrightarrow> db_hits m1 = db_hits m"
      "search IGNORECASE rows_re b = None \<longrightarrow> rows m1 = rows m"
      "search IGNORECASE elapsed_re b = None \<longrightarrow> elapsed_time_ms m1 = elapsed_time_ms m"
      "search IGNORECASE index_re b = None \<longrightarrow> indexes_used m1 = indexes_used m"
    by (elim exE conjE) (rule that; assumption)
  from Cons.IH [OF rest, of m1 "ops @ [opr]"] obtain m' ops' where
    2: "parse_blocks blocks (m1, ops @ [opr]) = Inr (m', ops')"
    and f2: "total_db_hits m' = total_db_hits m1" "query_time_ms m' = query_time_ms m1"
      "planning_time_ms m' = planning_time_ms m1" "memory_usage m' = memory_usage m1"
      "cache_hits m' = cache_hits m1" "cache_misses m' = cache_misses m1"
      "operators m' = operators m1"
    and g2: "(\<forall>b \<in> set blocks. search IGNORECASE db_hits_re b = None) \<longrightarrow> db_hits m' = db_hits m1"
      "(\<forall>b \<in> set blocks. search IGNORECASE rows_re b = None) \<longrightarrow> rows m' = rows m1"
      "(\<forall>b \<in> set blocks. search IGNORECASE elapsed_re b = None)
            \<longrightarrow> elapsed_time_ms m' = elapsed_time_ms m1"
      "(\<forall>b \<in> set blocks. search IGNORECASE index_re b = None)
            \<longrightarrow> indexes_used m' = indexes_used m1"
    by (elim exE conjE) (rule that; assumption)
  have "parse_blocks (b # blocks) (m, ops) = Inr (m', ops')"
    by (simp add: 1 2 and_then_Inr)
  with f1 f2 g1 g2 show ?case
    by simp
qed

lemma str_Cons: "str (c # lit) = Seq (One (Lit c)) (str lit)"
  by (simp add: str_def)

lemma rmatch_str_mismatch:
  "s = [] \<or> \<not> atom_ok fl (Lit c) (hd s) \<Longrightarrow> rmatch fl (seqs (str (c # lit) # rs)) s g = []"
  by (cases s) (auto simp: seqs_Cons str_Cons)

lemma search_absent:
  "\<forall>x \<in> set s. \<not> atom_ok fl (Lit c) x \<Longrightarrow> search fl (seqs (str (c # lit) # rs)) s = None"
proof (induction s)
  case Nil
  then show ?case
    by (subst search.simps) (simp add: rmatch_str_mismatch)
next
  case (Cons x xs)
  then show ?case
    by (subst search.simps) (simp add: rmatch_str_mismatch)
qed

lemma atom_ok_Lit_self: "atom_ok fl (Lit c) c"
  by simp

lemma rmatch_str_self: "rmatch fl (str lit) (lit @ s) g = [(g, s)]"
  by (induction lit) (simp_all add: str_Cons, simp add: str_def)

lemma rmatch_str_prefix: "rmatch fl (seqs (str lit # rs)) (lit @ s) g = rmatch fl (seqs rs) s g"
  by (simp add: seqs_Cons rmatch_str_self)

lemma spans_last: "spans p s \<noteq> [] \<and> last (spans p s) = dropWhile p s"
  by (induction s) auto

lemma greedy_run:
  assumes "0 < n" and "p c"
  shows "\<exists>ys. rev (tl (spans p (replicate n c))) = [] # ys"
proof -
  from assms obtain k where n: "n = Suc k" by (cases n) auto
  have t: "tl (spans p (replicate n c)) = spans p (replicate k c)"
    using assms(2) by (simp add: n)
  from spans_last [of p "replicate k c"] assms(2)
  have "spans p (replicate k c) \<noteq> []" and "last (spans p (replicate k c)) = []"
    by (simp_all add: dropWhile_replicate)
  then have "rev (spans p (replicate k c)) = [] # rev (butlast (spans p (replicate k c)))"
    by (metis append_butlast_last_id rev.simps(2) rev_append rev_rev_ident append_Cons append_Nil)
  then have "rev (tl (spans p (replicate n c))) = [] # rev (butlast (spans p (replicate k c)))"
    by (simp only: t)
  then show ?thesis ..
qed

lemma cache_hits_run:
  assumes "0 < n"
  shows "\<exists>g m rest. search IGNORECASE cache_hits_re (''cache hits: '' @ replicate n CHR ''1'')
             = Some (g, m, rest) \<and> g 1 = Some (replicate n CHR ''1'')"
proof -
  have d: "is_digit CHR ''1''" by (simp add: is_digit_def)
  have "atom_ok IGNORECASE Digit CHR ''1''" using d by simp
  from greedy_run [of n "atom_ok IGNORECASE Digit" "CHR ''1''", OF assms this] obtain ys where
    ys: "rev (tl (spans (atom_ok IGNORECASE Digit) (replicate n CHR ''1''))) = [] # ys" ..
  have "rmatch IGNORECASE cache_hits_re (''cache hits: '' @ replicate n CHR ''1'') Map.empty
      = rmatch IGNORECASE (seqs [Group 1 (Plus Digit)]) (replicate n CHR ''1'') Map.empty"
    unfolding cache_hits_re_def by (rule rmatch_str_prefix)
  also have "\<dots> = (Map.empty(1 \<mapsto> replicate n CHR ''1''), [])
                  # concat (map (\<lambda>(g1, s1). rmatch IGNORECASE Eps s1 g1)
                      (map (\<lambda>(g1, s1). (g1(1 \<mapsto> take (n - length s1) (replicate n CHR ''1'')), s1))
                         (map (Pair Map.empty) ys)))"
    by (simp add: seqs_Cons seqs_Nil ys)
  finally show ?thesis
    by (subst search.simps) simp
qed

lemma no_upper_C: "\<forall>x \<in> set (''cache hits: '' @ replicate n CHR ''1''). \<not> atom_ok DOTALL (Lit CHR ''C'') x"
  by (simp add: DOTALL_def)

lemma no_p: "\<forall>x \<in> set (''cache hits: '' @ replicate n CHR ''1''). \<not> atom_ok no_flags (Lit CHR ''p'') x"
  by (simp add: no_flags_def)

lemma no_m: "\<forall>x \<in> set (''cache hits: '' @ replicate n CHR ''1''). \<not> atom_ok IGNORECASE (Lit CHR ''m'') x"
  by (simp add: IGNORECASE_def lower_def)

lemma no_plus: "\<forall>x \<in> set (''cache hits: '' @ replicate n CHR ''1''). \<not> atom_ok DOTALL (Lit CHR ''+'') x"
  by (simp add: DOTALL_def)

lemma long_count_raises:
  assumes "max_str_digits < n"
  shows "parse_profile_metrics (''cache hits: '' @ replicate n CHR ''1'') = Inl ValueError"
proof -
  define s where "s = ''cache hits: '' @ replicate n CHR ''1''"
  have 1: "search DOTALL time_re s = None"
    unfolding time_re_def s_def by (rule search_absent [OF no_upper_C])
  have 2: "search no_flags planning_re s = None"
    unfolding planning_re_def s_def by (rule search_absent [OF no_p])
  have 3: "search IGNORECASE memory_re s = None"
    unfolding memory_re_def s_def by (rule search_absent [OF no_m])
  have "search DOTALL block_re s = None"
    unfolding block_re_def s_def by (rule search_absent [OF no_plus])
  then have 4: "findall DOTALL block_re s = []"
    by (subst findall.simps) simp
  from assms have "0 < n" by simp
  from cache_hits_run [OF this, folded s_def] obtain g m rest where
    5: "search IGNORECASE cache_hits_re s = Some (g, m, rest)"
    and g: "g 1 = Some (replicate n CHR ''1'')"
    by blast
  from assms g have 6: "py_int (g 1) = Inl ValueError"
    by (simp add: py_int_def)
  have "parse_profile_metrics s = Inl ValueError"
    unfolding parse_profile_metrics_def
    by (simp add: on_match_def 1 2 3 4 5 6 and_then_def int_step_def del: One_nat_def)
  then show ?thesis
    unfolding s_def .
qed

text \<open>
  C9, as stated, fails: the text \<^verbatim>\<open>cache hits: 111...1\<close> with 4301 digits matches the
  cache-hits pattern, whose group holds the 4301 digits, and \<^verbatim>\<open>int\<close> raises \<^verbatim>\<open>ValueError\<close> on a
  string of more than 4300 digits; nothing in the function catches it.
\<close>

theorem parse_profile_metrics_long_count_raises:
  "parse_profile_metrics (''cache hits: '' @ replicate 4301 CHR ''1'') = Inl ValueError"
  by (rule long_count_raises) (simp add: max_str_digits_def)

lemma time_on_match:
  assumes "short_digit_runs s"
  shows "\<exists>m1. on_match DOTALL time_re s
                (\<lambda>g m. and_then (int_step 1 u1 g m) (float_step 2 u2 g)) m0 = Inr m1
           \<and> (search DOTALL time_re s = None \<longrightarrow> m1 = m0)
           \<and> (m1 = m0 \<or> (\<exists>x y. m1 = u2 y (u1 x m0)))"
proof (cases "search DOTALL time_re s")
  case None
  then show ?thesis by (simp add: on_match_def)
next
  case (Some a)
  obtain g m rest where a: "a = (g, m, rest)" by (cases a)
  from search_sets [OF sets_time_re_1 Some [unfolded a]] obtain t where
    t: "g 1 = Some t" "digits t" "sublist t s"
    by blast
  with assms have "length t \<le> max_str_digits"
    by (simp add: short_digit_runs_def digits_def)
  with t have i: "py_int (g 1) = Inr (int (decimal t))"
    by (simp add: py_int_digits)
  have "\<not> ignorecase DOTALL" by (simp add: DOTALL_def)
  from search_sets [OF sets_time_re_2 [OF this] Some [unfolded a]] obtain t2 where
    t2: "g 2 = Some t2" "decimal_point t2"
    by blast
  from py_float_decimal_point [OF t2(2)] obtain y where "py_float (Some t2) = Inr y" ..
  with i t2 Some a show ?thesis
    by (auto simp: on_match_def int_step_def float_step_def and_then_def)
qed

text \<open>
  C9, amended: for every report text without a run of more than 4300 consecutive digits
  (in particular for every text of at most 4300 characters), \<^verbatim>\<open>parse_profile_metrics\<close> returns
  a metrics record without raising, and every field whose pattern did not match holds
  its zero or empty default: the header fields when the header pattern has no match, the
  planning time, the memory usage and the two cache counters when their patterns have
  none, the operator list when there is no operator block, and each of \<^verbatim>\<open>db_hits\<close>,
  \<^verbatim>\<open>rows\<close>, \<^verbatim>\<open>elapsed_time_ms\<close> and \<^verbatim>\<open>indexes_used\<close> when its pattern matches in no block. For
  the empty text this gives the all-default record (the witness below).
\<close>

theorem parse_profile_metrics_total:
  assumes sd: "short_digit_runs profile_string"
  shows "\<exists>m. parse_profile_metrics profile_string = Inr m
     \<and> (search DOTALL time_re profile_string = None \<longrightarrow> total_db_hits m = 0 \<and> query_time_ms m = 0)
     \<and> (search no_flags planning_re profile_string = None \<longrightarrow> planning_time_ms m = 0)
     \<and> (search IGNORECASE memory_re profile_string = None \<longrightarrow> memory_usage m = [])
     \<and> (findall DOTALL block_re profile_string = [] \<longrightarrow> operators m = [])
     \<and> ((\<forall>b \<in> set (findall DOTALL block_re profile_string).
            search IGNORECASE db_hits_re b = None) \<longrightarrow> db_hits m = 0)
     \<and> ((\<forall>b \<in> set (findall DOTALL block_re profile_string).
            search IGNORECASE rows_re b = None) \<longrightarrow> rows m = 0)
     \<and> ((\<forall>b \<in> set (findall DOTALL block_re profile_string).
            search IGNORECASE elapsed_re b = None) \<longrightarrow> elapsed_time_ms m = 0)
     \<and> ((\<forall>b \<in> set (findall DOTALL block_re profile_string).
            search IGNORECASE index_re b = None) \<longrightarrow> indexes_used m = [])
     \<and> (search IGNORECASE cache_hits_re profile_string = None \<longrightarrow> cache_hits m = 0)
     \<and> (search IGNORECASE cache_misses_re profile_string = None \<longrightarrow> cache_misses m = 0)"
proof -
  let ?s = profile_string
  let ?blocks = "findall DOTALL block_re ?s"
  from time_on_match [OF sd, of "\<lambda>x m. m\<lparr>total_db_hits := x\<rparr>" "\<lambda>y m. m\<lparr>query_time_ms := y\<rparr>" initial_metrics]
  obtain m1 where p1: "on_match DOTALL time_re ?s
                (\<lambda>g m. and_then (int_step 1 (\<lambda>x m. m\<lparr>total_db_hits := x\<rparr>) g m)
                          (float_step 2 (\<lambda>y m. m\<lparr>query_time_ms := y\<rparr>) g)) initial_metrics = Inr m1"
    and n1: "search DOTALL time_re ?s = None \<longrightarrow> m1 = initial_metrics"
    and c1: "m1 = initial_metrics
             \<or> (\<exists>x y. m1 = initial_metrics\<lparr>total_db_hits := x\<rparr>\<lparr>query_time_ms := y\<rparr>)"
    by (elim exE conjE) (rule that; assumption)
  have nf: "\<not> ignorecase no_flags" by (simp add: no_flags_def)
  from float_on_match [OF sets_planning_re [OF nf], of ?s "\<lambda>y m. m\<lparr>planning_time_ms := y\<rparr>" m1]
  obtain m2 where p2: "on_match no_flags planning_re ?s
                 (float_step 1 (\<lambda>y m. m\<lparr>planning_time_ms := y\<rparr>)) m1 = Inr m2"
    and n2: "search no_flags planning_re ?s = None \<longrightarrow> m2 = m1"
    and c2: "m2 = m1 \<or> (\<exists>x. m2 = m1\<lparr>planning_time_ms := x\<rparr>)"
    by (elim exE conjE) (rule that; assumption)
  from str_on_match [OF sets_memory_re, of IGNORECASE ?s "\<lambda>x m. m\<lparr>memory_usage := x\<rparr>" m2]
  obtain m3 where p3: "on_match IGNORECASE memory_re ?s
                 (str_step 1 (\<lambda>x m. m\<lparr>memory_usage := x\<rparr>)) m2 = Inr m3"
    and n3: "search IGNORECASE memory_re ?s = None \<longrightarrow> m3 = m2"
    and c3: "m3 = m2 \<or> (\<exists>x. m3 = m2\<lparr>memory_usage := x\<rparr>)"
    by (elim exE conjE) (rule that; assumption)
  have "\<forall>b \<in> set ?blocks. short_digit_runs b"
    using findall_sublist [OF sets_block_re] short_digit_runs_sublist [OF _ sd] by blast
  from parse_blocks_total [OF this, of m3 "[]"] obtain m4 ops where
    p4: "parse_blocks ?blocks (m3, []) = Inr (m4, ops)"
    and f4: "total_db_hits m4 = total_db_hits m3" "query_time_ms m4 = query_time_ms m3"
      "planning_time_ms m4 = planning_time_ms m3" "memory_usage m4 = memory_usage m3"
      "cache_hits m4 = cache_hits m3" "cache_misses m4 = cache_misses m3"
    and o4: "?blocks = [] \<longrightarrow> ops = []"
    and g4: "(\<forall>b \<in> set ?blocks. search IGNORECASE db_hits_re b = None) \<longrightarrow> db_hits m4 = db_hits m3"
      "(\<forall>b \<in> set ?blocks. search IGNORECASE rows_re b = None) \<longrightarrow> rows m4 = rows m3"
      "(\<forall>b \<in> set ?blocks. search IGNORECASE elapsed_re b = None)
            \<longrightarrow> elapsed_time_ms m4 = elapsed_time_ms m3"
      "(\<forall>b \<in> set ?blocks. search IGNORECASE index_re b = None)
            \<longrightarrow> indexes_used m4 = indexes_used m3"
    by (elim exE conjE) (rule that; assumption)
  let ?m5 = "m4\<lparr>operators := ops\<rparr>"
  from int_on_match [OF sets_cache_hits_re sd, of IGNORECASE "\<lambda>x m. m\<lparr>cache_hits := x\<rparr>" ?m5]
  obtain m6 where p6: "on_match IGNORECASE cache_hits_re ?s
                 (int_step 1 (\<lambda>x m. m\<lparr>cache_hits := x\<rparr>)) ?m5 = Inr m6"
    and n6: "search IGNORECASE cache_hits_re ?s = None \<longrightarrow> m6 = ?m5"
    and c6: "m6 = ?m5 \<or> (\<exists>x. m6 = ?m5\<lparr>cache_hits := x\<rparr>)"
    by (elim exE conjE) (rule that; assumption)
  from int_on_match [OF sets_cache_misses_re sd, of IGNORECASE "\<lambda>x m. m\<lparr>cache_misses := x\<rparr>" m6]
  obtain m7 where p7: "on_match IGNORECASE cache_misses_re ?s
                 (int_step 1 (\<lambda>x m. m\<lparr>cache_misses := x\<rparr>)) m6 = Inr m7"
    and n7: "search IGNORECASE cache_misses_re ?s = None \<longrightarrow> m7 = m6"
    and c7: "m7 = m6 \<or> (\<exists>x. m7 = m6\<lparr>cache_misses := x\<rparr>)"
    by (elim exE conjE) (rule that; assumption)
  have r: "parse_profile_metrics ?s = Inr m7"
    unfolding parse_profile_metrics_def
    by (simp only: p1 p2 p3 p4 p6 p7 and_then_Inr fst_conv snd_conv)
  define M where "M = cache_misses m7"
  define H where "H = cache_hits m6"
  define U where "U = memory_usage m3"
  define P where "P = planning_time_ms m2"
  define X where "X = total_db_hits m1"
  define Y where "Y = query_time_ms m1"
  from c7 have d7: "m7 = m6\<lparr>cache_misses := M\<rparr>" unfolding M_def by auto
  from c6 have d6: "m6 = ?m5\<lparr>cache_hits := H\<rparr>" unfolding H_def by auto
  from c3 have d3: "m3 = m2\<lparr>memory_usage := U\<rparr>" unfolding U_def by auto
  from c2 have d2: "m2 = m1\<lparr>planning_time_ms := P\<rparr>" unfolding P_def by auto
  from c1 have d1: "m1 = initial_metrics\<lparr>total_db_hits := X, query_time_ms := Y\<rparr>"
    unfolding X_def Y_def by auto
  from n7 have e7: "search IGNORECASE cache_misses_re ?s = None \<longrightarrow> M = cache_misses m6"
    unfolding M_def by auto
  from n6 have e6: "search IGNORECASE cache_hits_re ?s = None \<longrightarrow> H = cache_hits m4"
    unfolding H_def by auto
  from n3 have e3: "search IGNORECASE memory_re ?s = None \<longrightarrow> U = memory_usage m2"
    unfolding U_def by auto
  from n2 have e2: "search no_flags planning_re ?s = None \<longrightarrow> P = planning_time_ms m1"
    unfolding P_def by auto
  from n1 have e1: "search DOTALL time_re ?s = None \<longrightarrow> X = 0 \<and> Y = 0"
    unfolding X_def Y_def by (auto simp: initial_metrics_def)
  have i0: "db_hits initial_metrics = 0" "rows initial_metrics = 0"
    "elapsed_time_ms initial_metrics = 0" "memory_usage initial_metrics = []"
    "planning_time_ms initial_metrics = 0" "indexes_used initial_metrics = []"
    "cache_hits initial_metrics = 0" "cache_misses initial_metrics = 0"
    by (simp_all add: initial_metrics_def)
  have t: "total_db_hits m7 = X" "query_time_ms m7 = Y"
    by (simp_all add: d7 d6 f4 d3 d2 d1)
  have pl: "planning_time_ms m7 = P"
    by (simp add: d7 d6 f4 d3 d2)
  have mu: "memory_usage m7 = U"
    by (simp add: d7 d6 f4 d3)
  have op: "operators m7 = ops"
    by (simp add: d7 d6)
  have bl: "db_hits m7 = db_hits m4" "rows m7 = rows m4" "elapsed_time_ms m7 = elapsed_time_ms m4"
    "indexes_used m7 = indexes_used m4"
    by (simp_all add: d7 d6)
  have b3: "db_hits m3 = 0" "rows m3 = 0" "elapsed_time_ms m3 = 0" "indexes_used m3 = []"
    by (simp_all add: d3 d2 d1 i0)
  have ch: "cache_hits m7 = H"
    by (simp add: d7 d6)
  have c4: "cache_hits m4 = 0"
    by (simp add: f4 d3 d2 d1 i0)
  have cm: "cache_misses m7 = M"
    by (simp add: d7)
  have c6': "cache_misses m6 = 0"
    by (simp add: d6 f4 d3 d2 d1 i0)
  have u2: "memory_usage m2 = []"
    by (simp add: d2 d1 i0)
  have p1': "planning_time_ms m1 = 0"
    by (simp add: d1 i0)
  from r e1 e2 e3 e6 e7 o4 g4 show ?thesis
    by (simp add: t pl mu op bl b3 ch c4 cm c6' u2 p1')
qed

theorem parse_profile_metrics_total_witness:
  "short_digit_runs [] \<and> parse_profile_metrics [] = Inr initial_metrics"
proof -
  have h: "short_digit_runs []"
    by (simp add: short_digit_runs_def)
  have s: "search DOTALL time_re [] = None" "search no_flags planning_re [] = None"
    "search IGNORECASE memory_re [] = None" "search IGNORECASE cache_hits_re [] = None"
    "search IGNORECASE cache_misses_re [] = None"
    unfolding time_re_def planning_re_def memory_re_def cache_hits_re_def cache_misses_re_def
    by (simp_all add: search_absent)
  have "search DOTALL block_re [] = None"
    unfolding block_re_def by (simp add: search_absent)
  then have f: "findall DOTALL block_re [] = []"
    by (subst findall.simps) simp
  from parse_profile_metrics_total [OF h] obtain m where
    r: "parse_profile_metrics [] = Inr m"
    and d: "total_db_hits m = 0" "query_time_ms m = 0" "planning_time_ms m = 0"
      "memory_usage m = []" "operators m = []" "db_hits m = 0" "rows m = 0"
      "elapsed_time_ms m = 0" "indexes_used m = []" "cache_hits m = 0" "cache_misses m = 0"
    unfolding s f by auto
  from d have "m = initial_metrics"
    by (cases m) (simp add: initial_metrics_def)
  with r h show ?thesis
    by simp
qed

text \<open>The example report, evaluated.\<close>

lemma example_report_value:
  "parse_profile_metrics example_report =
     Inr \<lparr>db_hits = 842, rows = 50, elapsed_time_ms = 2, memory_usage = ''1.2 MB'',
          operators =
            [\<lparr>name = ''Operator'', op_db_hits = 210, op_rows = 50, elapsed_ms = 1\<rparr>,
             \<lparr>name = ''Operator'', op_db_hits = 632, op_rows = 50, elapsed_ms = 2\<rparr>],
          total_db_hits = 0, query_time_ms = 0, planning_time_ms = 9 / 20,
          indexes_used = [], cache_hits = 5, cache_misses = 1\<rparr>"
  by code_simp

text \<open>
  C3, as stated, fails on three fields of the example report. The header pattern asks for
  \<^verbatim>\<open>Cypher version: ..., planner: ..., runtime: .... N total db hits in T ms.\<close> and does not
  match the \<^verbatim>\<open>Summary:\<close> line, so \<^verbatim>\<open>total_db_hits\<close> and \<^verbatim>\<open>query_time_ms\<close> stay 0 (the claim:
  842 and 3.210); the index pattern asks for a name in parentheses after \<^verbatim>\<open>Index\<close>, and
  \<^verbatim>\<open>index[account_name_unique]\<close> has none before the end of its line, so \<^verbatim>\<open>indexes_used\<close>
  stays empty (the claim: one name).
\<close>

theorem parse_profile_metrics_example_differs:
  "map_sum id (\<lambda>m. (total_db_hits m, query_time_ms m, indexes_used m))
     (parse_profile_metrics example_report) = Inr (0, 0, [])"
  by (simp add: example_report_value)

text \<open>
  C3, amended: parsing the example report of section 6 yields totalDbHits = 0,
  queryTimeMs = 0, planningTimeMs = 0.450, memoryUsage = "1.2 MB", dbHits = 842,
  rows = 50, elapsedTimeMs = 2, indexesUsed = [], cacheHits = 5, cacheMisses = 1 (and two
  operators, both named "Operator").
\<close>

theorem parse_profile_metrics_example:
  "parse_profile_metrics example_report =
     Inr \<lparr>db_hits = 842, rows = 50, elapsed_time_ms = 2, memory_usage = ''1.2 MB'',
          operators =
            [\<lparr>name = ''Operator'', op_db_hits = 210, op_rows = 50, elapsed_ms = 1\<rparr>,
             \<lparr>name = ''Operator'', op_db_hits = 632, op_rows = 50, elapsed_ms = 2\<rparr>],
          total_db_hits = 0, query_time_ms = 0, planning_time_ms = 9 / 20,
          indexes_used = [], cache_hits = 5, cache_misses = 1\<rparr>"
  by (rule example_report_value)

end
